theory Spec2Isabelle
  imports Complex_Main "HOL-Library.Signed_Division"
begin

section \<open>Segmented prime counting (count\_primes.c)\<close>

text \<open>
  A shallow embedding of \<^verbatim>\<open>src/count_primes/count_primes.c\<close>. The C type
  \<^verbatim>\<open>int64_t\<close> is modelled by \<^typ>\<open>int\<close>; the arithmetic on the caller's
  \<^verbatim>\<open>start\<close> and \<^verbatim>\<open>length\<close>, whose size the caller controls, is wrapped to 64 bits
  (two's complement) with \<open>wrap64\<close>. The loop counters stay below \<open>2 ^ 33\<close>, so their
  arithmetic is written without wrapping. A function of the source that does not return
  normally (the process exits, a sieve is accessed outside its range, a loop runs forever)
  has the value \<open>None\<close>.
\<close>

subsection \<open>64-bit signed integers\<close>

definition int64 :: "int \<Rightarrow> bool" where
  "int64 x \<longleftrightarrow> - (2 ^ 63) \<le> x \<and> x < 2 ^ 63"

definition wrap64 :: "int \<Rightarrow> int" where
  "wrap64 x = (x + 2 ^ 63) mod 2 ^ 64 - 2 ^ 63"

subsection \<open>The sieve structure (sieve.h)\<close>

text \<open>
  Modelled from the spec: \<^verbatim>\<open>sieve.h\<close> (the type \<^verbatim>\<open>sieve_t\<close> and the operations
  \<^verbatim>\<open>create_sieve\<close>, \<^verbatim>\<open>init_sieve\<close>, \<^verbatim>\<open>mark_composite\<close>, \<^verbatim>\<open>prime_p\<close>,
  \<^verbatim>\<open>destroy_sieve\<close>) is not among the sources. A sieve is its extent (the field
  \<^verbatim>\<open>length\<close> that the source reads) and a dense array of that many cells. The source
  creates every sieve from a length alone and addresses it by index, so its base is 0.
  \<^verbatim>\<open>destroy_sieve\<close> releases the storage; a value of the model needs no release,
  and the call has no counterpart.
\<close>

record sieve_t =
  sieve_length :: int
  sieve_cells :: "bool list"

text \<open>
  Modelled from the spec: \<^verbatim>\<open>create_sieve\<close> allocates storage for a positive number of
  cells. Memory is not modelled: a positive extent is allocated, anything else is refused
  (the caller then exits). The cells are unspecified before \<^verbatim>\<open>init_sieve\<close>; the model
  fills them with \<open>False\<close>, and \<^verbatim>\<open>init_sieve\<close> overwrites every one of them.
\<close>

definition create_sieve :: "int \<Rightarrow> sieve_t option" where
  "create_sieve extent =
     (if 0 < extent
      then Some \<lparr>sieve_length = extent, sieve_cells = replicate (nat extent) False\<rparr>
      else None)"

text \<open>Modelled from the spec: \<^verbatim>\<open>init_sieve\<close> sets every cell to "possibly prime".\<close>

definition init_sieve :: "sieve_t \<Rightarrow> sieve_t" where
  "init_sieve sieve = sieve\<lparr>sieve_cells := replicate (nat (sieve_length sieve)) True\<rparr>"

text \<open>
  Modelled from the spec: \<^verbatim>\<open>mark_composite\<close> sets the cell of a value to false and
  requires the value to be represented; outside the range there is no result.
\<close>

definition mark_composite :: "sieve_t \<Rightarrow> int \<Rightarrow> sieve_t option" where
  "mark_composite sieve v =
     (if 0 \<le> v \<and> v < sieve_length sieve
      then Some (sieve\<lparr>sieve_cells := (sieve_cells sieve)[nat v := False]\<rparr>)
      else None)"

text \<open>
  Modelled from the spec: \<^verbatim>\<open>prime_p\<close> reads the cell of a value, under the same
  requirement.
\<close>

definition prime_p :: "sieve_t \<Rightarrow> int \<Rightarrow> bool option" where
  "prime_p sieve v =
     (if 0 \<le> v \<and> v < sieve_length sieve
      then Some (sieve_cells sieve ! nat v)
      else None)"

subsection \<open>Constants\<close>

definition MAX_SIEVE_LENGTH :: int where
  "MAX_SIEVE_LENGTH = 2 ^ 30"

text \<open>
  \<^verbatim>\<open>(int64_t)((double)1.42 * ((int64_t)1 << 31))\<close>: the binary64 number nearest to 1.42
  is \<open>6395111470866104 / 2 ^ 52\<close>; its product with \<open>2 ^ 31\<close> is exact, and the cast
  to \<^verbatim>\<open>int64_t\<close> truncates the positive product towards zero.
\<close>

definition double_1_42_mantissa :: int where
  "double_1_42_mantissa = 6395111470866104"

definition upper_bound :: int where
  "upper_bound = (double_1_42_mantissa * 2 ^ 31) div 2 ^ 52"

subsection \<open>find\_small\_primes\<close>

text \<open>
  The inner loop \<^verbatim>\<open>for (j = 2; i * j < upper_bound; ++j) mark_composite(sieve, i * j)\<close>,
  entered at \<open>j\<close>. For \<open>i \<le> 0\<close> the loop need not end, hence a partial function.
\<close>

partial_function (option) mark_multiples :: "int \<Rightarrow> int \<Rightarrow> int \<Rightarrow> sieve_t \<Rightarrow> sieve_t option" where
  "mark_multiples ub i j sieve =
     (if i * j < ub
      then (case mark_composite sieve (i * j) of
              None \<Rightarrow> None
            | Some sieve' \<Rightarrow> mark_multiples ub i (j + 1) sieve')
      else Some sieve)"

text \<open>
  The outer loop \<^verbatim>\<open>for (i = 2; i < upper_bound; ++i)\<close>, entered at \<open>i\<close>. The
  \<^verbatim>\<open>tbassert\<close> calls are compiled out (\<^verbatim>\<open>NDEBUG\<close> is defined before the include).
\<close>

function scan_sieve :: "int \<Rightarrow> int \<Rightarrow> sieve_t \<Rightarrow> sieve_t option" where
  "scan_sieve ub i sieve =
     (if i < ub
      then (case prime_p sieve i of
              None \<Rightarrow> None
            | Some False \<Rightarrow> scan_sieve ub (i + 1) sieve
            | Some True \<Rightarrow>
                (case mark_multiples ub i 2 sieve of
                   None \<Rightarrow> None
                 | Some sieve' \<Rightarrow> scan_sieve ub (i + 1) sieve'))
      else Some sieve)"
  by pat_completeness auto
termination
  by (relation "measure (\<lambda>(ub, i, sieve). nat (ub - i))") auto

definition find_small_primes :: "sieve_t option" where
  "find_small_primes =
     (case create_sieve upper_bound of
        None \<Rightarrow> None
      | Some sieve \<Rightarrow>
          (case mark_composite (init_sieve sieve) 0 of
             None \<Rightarrow> None
           | Some sieve0 \<Rightarrow>
               (case mark_composite sieve0 1 of
                  None \<Rightarrow> None
                | Some sieve1 \<Rightarrow> scan_sieve upper_bound 2 sieve1)))"

subsection \<open>count\_primes\_in\_interval\_helper\<close>

text \<open>
  Lines 199 to 205: the index at which marking for \<open>p\<close> starts. C's \<^verbatim>\<open>%\<close> truncates
  (\<open>smod\<close>); the sum \<^verbatim>\<open>start + kp_index\<close> can leave the 64-bit range and is wrapped.
\<close>

definition kp_index_start :: "int \<Rightarrow> int \<Rightarrow> int" where
  "kp_index_start start p =
     (let kp_index = start smod p;
          kp_index = (if 0 \<noteq> kp_index then p - kp_index else kp_index)
      in if wrap64 (start + kp_index) = p then kp_index + p else kp_index)"

text \<open>
  The loop \<^verbatim>\<open>for ( ; kp_index < length; kp_index += p) mark_composite(large_primes, kp_index)\<close>.
  For \<open>p = 0\<close> it need not end, hence a partial function.
\<close>

partial_function (option) mark_from :: "int \<Rightarrow> int \<Rightarrow> int \<Rightarrow> sieve_t \<Rightarrow> sieve_t option" where
  "mark_from len p kp_index large_primes =
     (if kp_index < len
      then (case mark_composite large_primes kp_index of
              None \<Rightarrow> None
            | Some large_primes' \<Rightarrow> mark_from len p (kp_index + p) large_primes')
      else Some large_primes)"

text \<open>The loop \<^verbatim>\<open>for (p = 2; p < small_primes->length; ++p)\<close>, entered at \<open>p\<close>.\<close>

function scan_small_primes :: "int \<Rightarrow> int \<Rightarrow> sieve_t \<Rightarrow> int \<Rightarrow> sieve_t \<Rightarrow> sieve_t option" where
  "scan_small_primes start len small_primes p large_primes =
     (if p < sieve_length small_primes
      then (case prime_p small_primes p of
              None \<Rightarrow> None
            | Some False \<Rightarrow> scan_small_primes start len small_primes (p + 1) large_primes
            | Some True \<Rightarrow>
                (case mark_from len p (kp_index_start start p) large_primes of
                   None \<Rightarrow> None
                 | Some large_primes' \<Rightarrow>
                     scan_small_primes start len small_primes (p + 1) large_primes'))
      else Some large_primes)"
  by pat_completeness auto
termination
  by (relation "measure (\<lambda>(start, len, small_primes, p, large_primes).
                   nat (sieve_length small_primes - p))") auto

text \<open>The counting loop \<^verbatim>\<open>for (i = 0; i < length; ++i)\<close>, entered at \<open>i\<close>.\<close>

function count_marked_prime :: "int \<Rightarrow> sieve_t \<Rightarrow> int \<Rightarrow> int \<Rightarrow> int option" where
  "count_marked_prime len large_primes i num_primes =
     (if i < len
      then (case prime_p large_primes i of
              None \<Rightarrow> None
            | Some b \<Rightarrow>
                count_marked_prime len large_primes (i + 1)
                  (if b then num_primes + 1 else num_primes))
      else Some num_primes)"
  by pat_completeness auto
termination
  by (relation "measure (\<lambda>(len, large_primes, i, num_primes). nat (len - i))") auto

text \<open>
  The segment sieve as it is when the marking loop has ended (lines 172 to 214), and the
  whole helper, which counts its surviving cells.
\<close>

definition sieve_segment :: "int \<Rightarrow> int \<Rightarrow> sieve_t \<Rightarrow> sieve_t option" where
  "sieve_segment start len small_primes =
     (case create_sieve len of
        None \<Rightarrow> None
      | Some large_primes \<Rightarrow>
          scan_small_primes start len small_primes 2 (init_sieve large_primes))"

definition count_primes_in_interval_helper :: "int \<Rightarrow> int \<Rightarrow> sieve_t \<Rightarrow> int option" where
  "count_primes_in_interval_helper start len small_primes =
     (case sieve_segment start len small_primes of
        None \<Rightarrow> None
      | Some large_primes \<Rightarrow> count_marked_prime len large_primes 0 0)"

subsection \<open>count\_primes\_in\_interval\<close>

text \<open>
  The function called for each segment is a parameter \<open>helper\<close> of the loop and of the
  body of \<open>count_primes_in_interval\<close>, so that a statement can speak of the calls that
  are made and of their arguments. The function of the source is the body with
  \<open>count_primes_in_interval_helper\<close> for the parameter.
\<close>

type_synonym helper_t = "int \<Rightarrow> int \<Rightarrow> sieve_t \<Rightarrow> int option"

text \<open>The loop \<^verbatim>\<open>while (length > MAX_SIEVE_LENGTH)\<close> together with the final segment.\<close>

function count_segments :: "helper_t \<Rightarrow> sieve_t \<Rightarrow> int \<Rightarrow> int \<Rightarrow> int \<Rightarrow> int option" where
  "count_segments helper small_primes start len num_primes =
     (if len > MAX_SIEVE_LENGTH
      then (case helper start MAX_SIEVE_LENGTH small_primes of
              None \<Rightarrow> None
            | Some c \<Rightarrow>
                count_segments helper small_primes (wrap64 (start + MAX_SIEVE_LENGTH))
                  (wrap64 (len - MAX_SIEVE_LENGTH)) (wrap64 (num_primes + c)))
      else (case helper start len small_primes of
              None \<Rightarrow> None
            | Some c \<Rightarrow> Some (wrap64 (num_primes + c))))"
  by pat_completeness auto
termination
proof (relation "measure (\<lambda>(helper, small_primes, start, len, num_primes). nat len)", goal_cases)
  case 1
  show ?case by simp
next
  case (2 helper small_primes start len num_primes c)
  have "(len - 2 ^ 30 + 2 ^ 63) mod 2 ^ 64 \<le> len - 2 ^ 30 + 2 ^ 63"
    using 2(1) by (intro zmod_le_nonneg_dividend) (simp add: MAX_SIEVE_LENGTH_def)
  then show ?case
    using 2(1) by (simp add: wrap64_def MAX_SIEVE_LENGTH_def)
qed

declare count_segments.simps [simp del]

text \<open>Lines 238 to 284, with the function called at lines 270 and 278 as a parameter.\<close>

definition count_primes_in_interval_with :: "helper_t \<Rightarrow> int \<Rightarrow> int \<Rightarrow> int option" where
  "count_primes_in_interval_with helper start len =
     (if len \<le> 0 then Some 0
      else if wrap64 (start + len) \<le> 2 then Some 0
      else
        (let (start', len') =
               (if start < 2 then (2, wrap64 (len - wrap64 (2 - start))) else (start, len))
         in case find_small_primes of
              None \<Rightarrow> None
            | Some small_primes \<Rightarrow> count_segments helper small_primes start' len' 0))"

text \<open>The function of the source: the calls go to \<open>count_primes_in_interval_helper\<close>.\<close>

definition count_primes_in_interval :: "int \<Rightarrow> int \<Rightarrow> int option" where
  "count_primes_in_interval start len =
     count_primes_in_interval_with count_primes_in_interval_helper start len"

subsection \<open>Primality\<close>

text \<open>
  The reference notion of the claims: a prime is an integer from 2 on with no divisor
  strictly between 1 and itself; negative numbers, 0 and 1 are not prime.
\<close>

definition is_prime :: "int \<Rightarrow> bool" where
  "is_prime n \<longleftrightarrow> 2 \<le> n \<and> (\<forall>d\<in>{2..<n}. \<not> d dvd n)"

text \<open>The number of primes in the half-open interval from \<open>a\<close> to \<open>b\<close>.\<close>

definition count_primes_between :: "int \<Rightarrow> int \<Rightarrow> int" where
  "count_primes_between a b = int (card {v \<in> {a..<b}. is_prime v})"

subsection \<open>Abstraction of a sieve\<close>

text \<open>
  A sieve of extent \<open>n\<close> represents a predicate on the integers from 0 up to \<open>n\<close>
  when its array has \<open>n\<close> cells and cell \<open>v\<close> holds the predicate's value at \<open>v\<close>.
\<close>

definition represents :: "sieve_t \<Rightarrow> int \<Rightarrow> (int \<Rightarrow> bool) \<Rightarrow> bool" where
  "represents sieve n P \<longleftrightarrow>
     sieve_length sieve = n \<and> length (sieve_cells sieve) = nat n \<and>
     (\<forall>v. 0 \<le> v \<and> v < n \<longrightarrow> sieve_cells sieve ! nat v = P v)"

text \<open>
  The loop invariant of the basic sieve: \<open>v\<close> is still unmarked when the scan has
  reached \<open>i\<close> if no prime below \<open>i\<close> divides it properly.
\<close>

definition survives :: "int \<Rightarrow> int \<Rightarrow> bool" where
  "survives i v \<longleftrightarrow> 2 \<le> v \<and> (\<forall>q. is_prime q \<and> q < i \<and> q dvd v \<longrightarrow> q = v)"

subsection \<open>The calls of the helper\<close>

text \<open>
  A function for the segments that checks the arguments of each call: with a start of at
  least 2 and a length that is positive and at most \<open>MAX_SIEVE_LENGTH\<close> the call goes
  through to \<open>helper\<close>, and any other call has no result, which the loop and the body
  pass on, as they do when a call aborts.
\<close>

definition guarded_helper :: "helper_t \<Rightarrow> helper_t" where
  "guarded_helper helper start len small_primes =
     (if 2 \<le> start \<and> 0 < len \<and> len \<le> MAX_SIEVE_LENGTH
      then helper start len small_primes
      else None)"

subsection \<open>The naive sieve\<close>

text \<open>
  A second definition, for comparison, that follows the description of the basic sieve
  (the header comment of the source, and the spec): a sieve \<open>S\<close> of \<open>n\<close> entries for the
  integers from 0 up to \<open>n\<close>, all set; entries 0 and 1 are cleared; then the entries
  are scanned from 2, and where entry \<open>i\<close> is still set, the entry of each multiple
  \<open>k * i\<close> from \<open>2 * i\<close> up to \<open>n\<close> is cleared. The naive count of an interval sieves
  up to its end in one pass and counts the entries of the interval that are still set.
\<close>

definition naive_cross_out :: "nat \<Rightarrow> nat \<Rightarrow> bool list \<Rightarrow> bool list" where
  "naive_cross_out n i S =
     fold (\<lambda>m S. S[m := False]) (filter (\<lambda>m. m < n) (map (\<lambda>k. k * i) [2..<n])) S"

definition naive_sieve :: "nat \<Rightarrow> bool list" where
  "naive_sieve n =
     fold (\<lambda>i S. if S ! i then naive_cross_out n i S else S) [2..<n]
       ((replicate n True)[0 := False, 1 := False])"

definition naive_count :: "int \<Rightarrow> int \<Rightarrow> int" where
  "naive_count start len =
     (let S = naive_sieve (nat (start + len))
      in int (card {v \<in> {start..<start + len}. 0 \<le> v \<and> S ! nat v}))"

section \<open>Verification\<close>

subsection \<open>Primes\<close>

lemma is_prime_ge2: "is_prime p \<Longrightarrow> 2 \<le> p"
  by (simp add: is_prime_def)

lemma is_prime_divisor: "is_prime p \<Longrightarrow> d dvd p \<Longrightarrow> 2 \<le> d \<Longrightarrow> d = p"
proof -
  assume p: "is_prime p" and d: "d dvd p" and d2: "2 \<le> d"
  have "d \<le> p" using d p by (intro zdvd_imp_le) (auto simp: is_prime_def)
  then show "d = p" using p d d2 by (auto simp: is_prime_def)
qed

lemma least_factor:
  "2 \<le> n \<Longrightarrow> \<exists>p. is_prime p \<and> p dvd n \<and> (p = n \<or> p * p \<le> n)"
proof (induction "nat n" arbitrary: n rule: less_induct)
  case less
  show ?case
  proof (cases "is_prime n")
    case True
    then show ?thesis by auto
  next
    case False
    then obtain d where d: "2 \<le> d" "d < n" "d dvd n"
      using less.prems by (auto simp: is_prime_def)
    then obtain m where m: "n = d * m" by (auto simp: dvd_def)
    have mpos: "0 < m"
    proof -
      have "0 < d * m" "0 < d" using d(1) less.prems m by auto
      then show ?thesis by (rule zero_less_mult_pos)
    qed
    have m2: "2 \<le> m"
    proof (rule ccontr)
      assume "\<not> 2 \<le> m"
      then have "m = 1" using mpos by simp
      then show False using m d(2) by simp
    qed
    have mn: "m < n"
    proof -
      have "1 * m < d * m" using d(1) mpos by (intro mult_strict_right_mono) auto
      then show ?thesis using m by simp
    qed
    define e where "e = min d m"
    have e1: "2 \<le> e" "e < n" using d m2 mn by (auto simp: e_def)
    have e2: "e dvd n" using d(3) m by (auto simp: e_def min_def)
    have e3: "e * e \<le> n"
    proof -
      have "e * e \<le> d * m" using d(1) m2 by (intro mult_mono) (auto simp: e_def)
      then show ?thesis using m by simp
    qed
    have "nat e < nat n" using e1 by simp
    from less.hyps[OF this e1(1)] obtain p where
      p: "is_prime p" "p dvd e" "p = e \<or> p * p \<le> e"
      by auto
    have "p \<le> e" using p(2) e1(1) by (intro zdvd_imp_le) auto
    moreover have "0 \<le> p" using p(1) by (simp add: is_prime_def)
    ultimately have "p * p \<le> e * e" by (intro mult_mono) auto
    then have "p * p \<le> n" using e3 by simp
    moreover have "p dvd n" using p(2) e2 by (rule dvd_trans)
    ultimately show ?thesis using p(1) by auto
  qed
qed

subsection \<open>The basic sieve\<close>

lemma represents_init: "create_sieve n = Some s \<Longrightarrow> represents (init_sieve s) n (\<lambda>v. True)"
  by (auto simp: create_sieve_def init_sieve_def represents_def split: if_splits)

lemma represents_mark:
  assumes "represents s n P" "0 \<le> v" "v < n"
  shows "\<exists>s'. mark_composite s v = Some s' \<and> represents s' n (P(v := False))"
  using assms by (auto simp: mark_composite_def represents_def nth_list_update)

lemma represents_prime_p:
  "represents s n P \<Longrightarrow> 0 \<le> v \<Longrightarrow> v < n \<Longrightarrow> prime_p s v = Some (P v)"
  by (simp add: prime_p_def represents_def)

lemma represents_cong:
  "represents s n P \<Longrightarrow> (\<And>v. 0 \<le> v \<Longrightarrow> v < n \<Longrightarrow> P v = Q v) \<Longrightarrow> represents s n Q"
  by (simp add: represents_def)

lemma mark_multiples_represents:
  assumes "represents s ub P" "1 \<le> i" "0 \<le> j"
  shows "\<exists>s'. mark_multiples ub i j s = Some s' \<and>
              represents s' ub (\<lambda>v. P v \<and> (\<forall>k\<ge>j. v \<noteq> i * k))"
  using assms
proof (induction "nat (ub - i * j)" arbitrary: j s P rule: less_induct)
  case less
  show ?case
  proof (cases "i * j < ub")
    case True
    have nonneg: "0 \<le> i * j" using less.prems by simp
    from represents_mark[OF less.prems(1) nonneg True] obtain s1 where
      s1: "mark_composite s (i * j) = Some s1" "represents s1 ub (P(i * j := False))"
      by auto
    have "i * j < i * (j + 1)" using less.prems(2) by (simp add: distrib_left)
    then have "nat (ub - i * (j + 1)) < nat (ub - i * j)" using True by simp
    from less.hyps[OF this s1(2) less.prems(2)] less.prems(3) obtain s' where
      s': "mark_multiples ub i (j + 1) s1 = Some s'"
          "represents s' ub (\<lambda>v. (P(i * j := False)) v \<and> (\<forall>k\<ge>j + 1. v \<noteq> i * k))"
      by auto
    have "represents s' ub (\<lambda>v. P v \<and> (\<forall>k\<ge>j. v \<noteq> i * k))"
    proof (rule represents_cong[OF s'(2)])
      fix v :: int
      show "((P(i * j := False)) v \<and> (\<forall>k\<ge>j + 1. v \<noteq> i * k)) = (P v \<and> (\<forall>k\<ge>j. v \<noteq> i * k))"
      proof (cases "v = i * j")
        case True
        then show ?thesis by auto
      next
        case False
        have "(\<forall>k\<ge>j + 1. v \<noteq> i * k) = (\<forall>k\<ge>j. v \<noteq> i * k)"
        proof
          assume a: "\<forall>k\<ge>j + 1. v \<noteq> i * k"
          show "\<forall>k\<ge>j. v \<noteq> i * k"
          proof (intro allI impI)
            fix k assume "j \<le> k"
            then have "k = j \<or> j + 1 \<le> k" by auto
            then show "v \<noteq> i * k" using a False by auto
          qed
        next
          assume "\<forall>k\<ge>j. v \<noteq> i * k"
          then show "\<forall>k\<ge>j + 1. v \<noteq> i * k" by auto
        qed
        then show ?thesis using False by simp
      qed
    qed
    moreover have "mark_multiples ub i j s = Some s'"
      using True s1(1) s'(1) by (subst mark_multiples.simps) simp
    ultimately show ?thesis by blast
  next
    case False
    have "represents s ub (\<lambda>v. P v \<and> (\<forall>k\<ge>j. v \<noteq> i * k))"
    proof (rule represents_cong[OF less.prems(1)])
      fix v :: int assume v: "v < ub"
      have "v \<noteq> i * k" if "j \<le> k" for k
      proof -
        have "i * j \<le> i * k" using that less.prems(2) by (intro mult_left_mono) auto
        then show ?thesis using v False by auto
      qed
      then show "P v = (P v \<and> (\<forall>k\<ge>j. v \<noteq> i * k))" by auto
    qed
    moreover have "mark_multiples ub i j s = Some s"
      using False by (subst mark_multiples.simps) simp
    ultimately show ?thesis by blast
  qed
qed

lemma survives_is_prime: "v \<le> i \<Longrightarrow> survives i v = is_prime v"
proof
  assume vi: "v \<le> i" and s: "survives i v"
  then have v2: "2 \<le> v" by (simp add: survives_def)
  from least_factor[OF v2] obtain p where p: "is_prime p" "p dvd v" "p = v \<or> p * p \<le> v"
    by auto
  show "is_prime v"
  proof (cases "p = v")
    case True
    then show ?thesis using p(1) by simp
  next
    case False
    have "p \<le> v" using p(2) v2 by (intro zdvd_imp_le) auto
    then have "p < i" using False vi by simp
    then have "p = v" using s p by (auto simp: survives_def)
    then show ?thesis using False by simp
  qed
next
  assume "v \<le> i" and p: "is_prime v"
  show "survives i v"
    unfolding survives_def
  proof (intro conjI allI impI)
    show "2 \<le> v" using p by (rule is_prime_ge2)
  next
    fix q assume "is_prime q \<and> q < i \<and> q dvd v"
    then show "q = v" using is_prime_divisor[OF p, of q] is_prime_ge2[of q] by auto
  qed
qed

lemma survives_Suc_composite:
  "\<not> is_prime i \<Longrightarrow> survives (i + 1) v = survives i v"
proof -
  assume np: "\<not> is_prime i"
  have "(is_prime q \<and> q < i + 1 \<and> q dvd v) = (is_prime q \<and> q < i \<and> q dvd v)" for q
    using np by (cases "q = i") auto
  then show ?thesis by (simp add: survives_def)
qed

lemma survives_Suc_prime:
  assumes "is_prime i"
  shows "survives (i + 1) v = (survives i v \<and> (\<forall>k\<ge>2. v \<noteq> i * k))"
proof (cases "2 \<le> v")
  case False
  then show ?thesis by (simp add: survives_def)
next
  case v2: True
  have i2: "2 \<le> i" using assms by (rule is_prime_ge2)
  have mult: "(\<forall>k\<ge>2. v \<noteq> i * k) = (i dvd v \<longrightarrow> i = v)"
  proof
    assume a: "\<forall>k\<ge>2. v \<noteq> i * k"
    show "i dvd v \<longrightarrow> i = v"
    proof
      assume "i dvd v"
      then obtain k where k: "v = i * k" by (auto simp: dvd_def)
      have "0 < k"
      proof -
        have "0 < i * k" "0 < i" using k v2 i2 by auto
        then show ?thesis by (rule zero_less_mult_pos)
      qed
      moreover have "\<not> 2 \<le> k" using a k by auto
      ultimately have "k = 1" by simp
      then show "i = v" using k by simp
    qed
  next
    assume a: "i dvd v \<longrightarrow> i = v"
    show "\<forall>k\<ge>2. v \<noteq> i * k"
    proof (intro allI impI notI)
      fix k :: int assume k: "2 \<le> k" and "v = i * k"
      then have "i = i * k" using a by auto
      then show False using k i2 by simp
    qed
  qed
  have "(\<forall>q. is_prime q \<and> q < i + 1 \<and> q dvd v \<longrightarrow> q = v) =
        ((\<forall>q. is_prime q \<and> q < i \<and> q dvd v \<longrightarrow> q = v) \<and> (i dvd v \<longrightarrow> i = v))"
  proof -
    have "q < i + 1 \<longleftrightarrow> q < i \<or> q = i" for q by auto
    then show ?thesis using assms by auto
  qed
  then show ?thesis using v2 mult by (simp add: survives_def)
qed

lemma scan_sieve_represents:
  assumes "represents s ub (survives i)" "2 \<le> i" "i \<le> ub"
  shows "\<exists>s'. scan_sieve ub i s = Some s' \<and> represents s' ub (survives ub)"
  using assms
proof (induction "nat (ub - i)" arbitrary: i s rule: less_induct)
  case less
  show ?case
  proof (cases "i < ub")
    case False
    then have "i = ub" using less.prems by simp
    then show ?thesis using less.prems(1) by simp
  next
    case True
    have i0: "0 \<le> i" using less.prems(2) by simp
    have pp: "prime_p s i = Some (is_prime i)"
      using represents_prime_p[OF less.prems(1) i0 True] survives_is_prime[of i i] by simp
    have m: "nat (ub - (i + 1)) < nat (ub - i)" using True by simp
    have b: "2 \<le> i + 1" "i + 1 \<le> ub" using less.prems(2) True by auto
    show ?thesis
    proof (cases "is_prime i")
      case False
      have "represents s ub (survives (i + 1))"
        using less.prems(1) survives_Suc_composite[OF False] by (simp add: represents_def)
      from less.hyps[OF m this b] True pp False show ?thesis by simp
    next
      case prime: True
      have "1 \<le> i" "(0::int) \<le> 2" using less.prems(2) by auto
      from mark_multiples_represents[OF less.prems(1) this] obtain s1 where
        s1: "mark_multiples ub i 2 s = Some s1"
            "represents s1 ub (\<lambda>v. survives i v \<and> (\<forall>k\<ge>2. v \<noteq> i * k))"
        by auto
      have "represents s1 ub (survives (i + 1))"
        using s1(2) survives_Suc_prime[OF prime] by (simp add: represents_def)
      from less.hyps[OF m this b] True pp prime s1(1) show ?thesis by simp
    qed
  qed
qed

lemma upper_bound_eq: "upper_bound = 3049426780"
  by (simp add: upper_bound_def double_1_42_mantissa_def)

lemma survives_2: "survives 2 v = (2 \<le> v)"
  using is_prime_ge2 by (fastforce simp: survives_def)

lemma find_small_primes_represents:
  "\<exists>sp. find_small_primes = Some sp \<and> represents sp upper_bound is_prime"
proof -
  obtain s where s: "create_sieve upper_bound = Some s"
    by (simp add: create_sieve_def upper_bound_eq)
  have r: "represents (init_sieve s) upper_bound (\<lambda>v. True)"
    using s by (rule represents_init)
  from represents_mark[OF r, of 0] obtain s0 where
    s0: "mark_composite (init_sieve s) 0 = Some s0"
        "represents s0 upper_bound ((\<lambda>v. True)(0 := False))"
    by (auto simp: upper_bound_eq)
  from represents_mark[OF s0(2), of 1] obtain s1 where
    s1: "mark_composite s0 1 = Some s1"
        "represents s1 upper_bound ((\<lambda>v. True)(0 := False, 1 := False))"
    by (auto simp: upper_bound_eq)
  have "represents s1 upper_bound (survives 2)"
    by (rule represents_cong[OF s1(2)]) (auto simp: survives_2)
  from scan_sieve_represents[OF this] obtain sp where
    sp: "scan_sieve upper_bound 2 s1 = Some sp" "represents sp upper_bound (survives upper_bound)"
    by (auto simp: upper_bound_eq)
  have "represents sp upper_bound is_prime"
    by (rule represents_cong[OF sp(2)]) (simp add: survives_is_prime)
  moreover have "find_small_primes = Some sp"
    using s s0(1) s1(1) sp(1) by (simp add: find_small_primes_def)
  ultimately show ?thesis by blast
qed

subsection \<open>The segment helper\<close>

lemma wrap64_id: "int64 x \<Longrightarrow> wrap64 x = x"
  by (simp add: int64_def wrap64_def)

lemma wrap64_overflow: "2 ^ 63 \<le> x \<Longrightarrow> x < 2 ^ 64 \<Longrightarrow> wrap64 x < 0"
proof -
  assume a: "2 ^ 63 \<le> x" "x < 2 ^ 64"
  define m :: int where "m = 2 ^ 64"
  have "x + 2 ^ 63 = (x - 2 ^ 63) + m" by (simp add: m_def)
  then have "(x + 2 ^ 63) mod m = (x - 2 ^ 63) mod m" by (simp only: mod_add_self2)
  also have "\<dots> = x - 2 ^ 63" using a by (simp add: m_def)
  finally show ?thesis using a by (simp add: wrap64_def m_def)
qed

lemma proper_multiple_iff:
  fixes i v :: int
  assumes "2 \<le> i" "2 \<le> v"
  shows "(\<forall>k\<ge>2. v \<noteq> i * k) = (i dvd v \<longrightarrow> i = v)"
proof
  assume a: "\<forall>k\<ge>2. v \<noteq> i * k"
  show "i dvd v \<longrightarrow> i = v"
  proof
    assume "i dvd v"
    then obtain k where k: "v = i * k" by (auto simp: dvd_def)
    have "0 < k"
    proof -
      have "0 < i * k" "0 < i" using k assms by auto
      then show ?thesis by (rule zero_less_mult_pos)
    qed
    moreover have "\<not> 2 \<le> k" using a k by auto
    ultimately have "k = 1" by simp
    then show "i = v" using k by simp
  qed
next
  assume a: "i dvd v \<longrightarrow> i = v"
  show "\<forall>k\<ge>2. v \<noteq> i * k"
  proof (intro allI impI notI)
    fix k :: int assume k: "2 \<le> k" and "v = i * k"
    then have "i = i * k" using a by auto
    then show False using k assms(1) by simp
  qed
qed

text \<open>The index before the adjustment: the least multiple of p from start on.\<close>

lemma first_multiple:
  fixes start p :: int
  assumes "0 \<le> start" "0 < p"
  defines "r \<equiv> start mod p"
  defines "k0 \<equiv> (if 0 \<noteq> r then p - r else r)"
  shows "0 \<le> k0" "k0 < p" "p dvd start + k0"
    "\<And>k'. 0 \<le> k' \<Longrightarrow> p dvd start + k' \<Longrightarrow> k0 \<le> k'"
proof -
  have r: "0 \<le> r" "r < p" using assms(2) by (simp_all add: r_def)
  show k0: "0 \<le> k0" "k0 < p" using r by (auto simp: k0_def)
  have "(start + k0) mod p = 0"
  proof (cases "r = 0")
    case True
    then show ?thesis by (simp add: k0_def r_def)
  next
    case False
    then have "start + k0 = start - start mod p + p" by (simp add: k0_def r_def)
    also have "\<dots> = p * (start div p) + p" by (simp add: minus_mod_eq_mult_div)
    finally show ?thesis by simp
  qed
  then show d: "p dvd start + k0" by (simp add: dvd_eq_mod_eq_0)
  fix k' :: int assume k': "0 \<le> k'" "p dvd start + k'"
  show "k0 \<le> k'"
  proof (rule ccontr)
    assume "\<not> k0 \<le> k'"
    then have lt: "0 < k0 - k'" "k0 - k' < p" using k'(1) k0 by auto
    have "p dvd (start + k0) - (start + k')" using d k'(2) by (rule dvd_diff)
    then have "p dvd k0 - k'" by simp
    then have "p \<le> k0 - k'" using lt(1) by (rule zdvd_imp_le)
    then show False using lt(2) by simp
  qed
qed

lemma kp_index_start_spec:
  assumes "2 \<le> start" "start < 2 ^ 63" "2 \<le> p" "p < 2 ^ 63"
  defines "k \<equiv> kp_index_start start p"
  shows "0 \<le> k" "p dvd start + k" "p < start + k"
    "\<And>k'. 0 \<le> k' \<Longrightarrow> p dvd start + k' \<Longrightarrow> p < start + k' \<Longrightarrow> k \<le> k'"
proof -
  define k0 where "k0 = (if 0 \<noteq> start mod p then p - start mod p else start mod p)"
  have s0: "0 \<le> start" "0 < p" using assms by auto
  note fm = first_multiple[OF s0, folded k0_def]
  have smod: "start smod p = start mod p"
    using assms(1,3) by (simp add: smod_int_alt_def)
  have w: "(wrap64 (start + k0) = p) = (start + k0 = p)"
  proof (cases "start + k0 < 2 ^ 63")
    case True
    then have "int64 (start + k0)" using assms(1) fm(1) by (simp add: int64_def)
    then show ?thesis by (simp add: wrap64_id)
  next
    case False
    then have "wrap64 (start + k0) < 0"
      using fm(2) assms(2,4) by (intro wrap64_overflow) auto
    then show ?thesis using False assms(3,4) by auto
  qed
  have "k = (if wrap64 (start + k0) = p then k0 + p else k0)"
    by (simp only: k_def kp_index_start_def Let_def smod k0_def)
  then have k: "k = (if start + k0 = p then k0 + p else k0)"
    by (simp only: w)
  have ge: "p \<le> start + k0" using fm(1,3) assms(1) by (intro zdvd_imp_le) auto
  show "0 \<le> k" using k fm(1) s0 by auto
  show "p dvd start + k" using k fm(3) by (auto simp: add.assoc[symmetric])
  show "p < start + k" using k ge s0 by auto
  fix k' :: int assume k': "0 \<le> k'" "p dvd start + k'" "p < start + k'"
  have le: "k0 \<le> k'" using k'(1,2) by (rule fm(4))
  show "k \<le> k'"
  proof (cases "start + k0 = p")
    case False
    then show ?thesis using k le by simp
  next
    case True
    then have "0 < k' - k0" using k'(3) by simp
    moreover have "p dvd (start + k') - (start + k0)" using k'(2) fm(3) by (rule dvd_diff)
    then have "p dvd k' - k0" by simp
    ultimately have "p \<le> k' - k0" by (intro zdvd_imp_le) 
    then show ?thesis using k True by simp
  qed
qed

lemma kp_index_progression:
  assumes "2 \<le> start" "start < 2 ^ 63" "2 \<le> p" "p < 2 ^ 63" "0 \<le> v"
  shows "(\<forall>m\<ge>0. v \<noteq> kp_index_start start p + m * p) = (\<forall>k\<ge>2. start + v \<noteq> p * k)"
proof -
  define k where "k = kp_index_start start p"
  note sp = kp_index_start_spec[OF assms(1-4), folded k_def]
  have v2: "2 \<le> start + v" using assms(1,5) by simp
  have "(\<exists>m\<ge>0. v = k + m * p) = (p dvd start + v \<and> p \<noteq> start + v)"
  proof
    assume "\<exists>m\<ge>0. v = k + m * p"
    then obtain m where m: "0 \<le> m" "v = k + m * p" by auto
    have "p dvd m * p" by simp
    with sp(2) have "p dvd (start + k) + m * p" by (rule dvd_add)
    then have "p dvd start + v" by (simp add: m(2) add.assoc)
    moreover have "0 \<le> m * p" using m(1) assms(3) by simp
    then have "p < start + v" using sp(3) m(2) by simp
    ultimately show "p dvd start + v \<and> p \<noteq> start + v" by simp
  next
    assume a: "p dvd start + v \<and> p \<noteq> start + v"
    then have "p \<le> start + v" using v2 by (intro zdvd_imp_le) auto
    then have "p < start + v" using a by simp
    then have le: "k \<le> v" using a assms(5) by (intro sp(4)) auto
    have "p dvd (start + v) - (start + k)" using a sp(2) by (intro dvd_diff) auto
    then have "p dvd v - k" by simp
    then obtain m where m: "v - k = p * m" by (auto simp: dvd_def)
    have "0 \<le> m"
    proof (rule ccontr)
      assume "\<not> 0 \<le> m"
      then have "m \<le> -1" by simp
      then have "p * m \<le> p * (-1)" using assms(3) by (intro mult_left_mono) auto
      then show False using m le assms(3) by simp
    qed
    then show "\<exists>m\<ge>0. v = k + m * p" using m by (intro exI[of _ m]) (simp add: mult.commute)
  qed
  moreover have "(\<forall>k\<ge>2. start + v \<noteq> p * k) = (p dvd start + v \<longrightarrow> p = start + v)"
    using assms(3) v2 by (rule proper_multiple_iff)
  ultimately show ?thesis unfolding k_def by blast
qed

lemma mark_from_represents:
  assumes "represents s len P" "1 \<le> p" "0 \<le> k"
  shows "\<exists>s'. mark_from len p k s = Some s' \<and>
              represents s' len (\<lambda>v. P v \<and> (\<forall>m\<ge>0. v \<noteq> k + m * p))"
  using assms
proof (induction "nat (len - k)" arbitrary: k s P rule: less_induct)
  case less
  show ?case
  proof (cases "k < len")
    case True
    from represents_mark[OF less.prems(1) less.prems(3) True] obtain s1 where
      s1: "mark_composite s k = Some s1" "represents s1 len (P(k := False))"
      by auto
    have "nat (len - (k + p)) < nat (len - k)" using True less.prems(2) by simp
    moreover have "0 \<le> k + p" using less.prems(2,3) by simp
    ultimately obtain s' where
      s': "mark_from len p (k + p) s1 = Some s'"
          "represents s' len (\<lambda>v. (P(k := False)) v \<and> (\<forall>m\<ge>0. v \<noteq> k + p + m * p))"
      using less.hyps[OF _ s1(2) less.prems(2)] by blast
    have "represents s' len (\<lambda>v. P v \<and> (\<forall>m\<ge>0. v \<noteq> k + m * p))"
    proof (rule represents_cong[OF s'(2)])
      fix v :: int
      have "(\<forall>m\<ge>0. v \<noteq> k + m * p) = (v \<noteq> k \<and> (\<forall>m\<ge>0. v \<noteq> k + p + m * p))"
      proof
        assume a: "\<forall>m\<ge>0. v \<noteq> k + m * p"
        have "v \<noteq> k" using a[rule_format, of 0] by simp
        moreover have "v \<noteq> k + p + m * p" if "0 \<le> m" for m
          using a[rule_format, of "m + 1"] that by (simp add: distrib_right)
        ultimately show "v \<noteq> k \<and> (\<forall>m\<ge>0. v \<noteq> k + p + m * p)" by blast
      next
        assume a: "v \<noteq> k \<and> (\<forall>m\<ge>0. v \<noteq> k + p + m * p)"
        show "\<forall>m\<ge>0. v \<noteq> k + m * p"
        proof (intro allI impI)
          fix m :: int assume "0 \<le> m"
          then consider "m = 0" | "0 \<le> m - 1" by fastforce
          then show "v \<noteq> k + m * p"
          proof cases
            case 1
            then show ?thesis using a by simp
          next
            case 2
            have "k + m * p = k + p + (m - 1) * p" by (simp add: left_diff_distrib)
            then show ?thesis using a 2 by metis
          qed
        qed
      qed
      then show "((P(k := False)) v \<and> (\<forall>m\<ge>0. v \<noteq> k + p + m * p)) =
                 (P v \<and> (\<forall>m\<ge>0. v \<noteq> k + m * p))"
        by auto
    qed
    moreover have "mark_from len p k s = Some s'"
      using True s1(1) s'(1) by (subst mark_from.simps) simp
    ultimately show ?thesis by blast
  next
    case False
    have "represents s len (\<lambda>v. P v \<and> (\<forall>m\<ge>0. v \<noteq> k + m * p))"
    proof (rule represents_cong[OF less.prems(1)])
      fix v :: int assume v: "v < len"
      have "v \<noteq> k + m * p" if "0 \<le> m" for m
      proof -
        have "0 \<le> m * p" using that less.prems(2) by simp
        then show ?thesis using v False by auto
      qed
      then show "P v = (P v \<and> (\<forall>m\<ge>0. v \<noteq> k + m * p))" by auto
    qed
    moreover have "mark_from len p k s = Some s"
      using False by (subst mark_from.simps) simp
    ultimately show ?thesis by blast
  qed
qed

lemma survives_sqrt:
  assumes "0 \<le> i" "v < i * i"
  shows "survives i v = is_prime v"
proof
  assume s: "survives i v"
  then have v2: "2 \<le> v" by (simp add: survives_def)
  from least_factor[OF v2] obtain p where p: "is_prime p" "p dvd v" "p = v \<or> p * p \<le> v"
    by auto
  show "is_prime v"
  proof (cases "p = v")
    case True
    then show ?thesis using p(1) by simp
  next
    case False
    have "p < i"
    proof (rule ccontr)
      assume "\<not> p < i"
      then have "i * i \<le> p * p" using assms(1) by (intro mult_mono) auto
      then show False using p(3) False assms(2) by simp
    qed
    then have "p = v" using s p by (auto simp: survives_def)
    then show ?thesis using False by simp
  qed
next
  assume p: "is_prime v"
  show "survives i v"
    unfolding survives_def
  proof (intro conjI allI impI)
    show "2 \<le> v" using p by (rule is_prime_ge2)
  next
    fix q assume "is_prime q \<and> q < i \<and> q dvd v"
    then show "q = v" using is_prime_divisor[OF p, of q] is_prime_ge2[of q] by auto
  qed
qed

lemma scan_small_primes_represents:
  assumes "represents sp U is_prime" "represents lp len (\<lambda>v. survives p (start + v))"
    "2 \<le> p" "p \<le> U" "U \<le> 2 ^ 63" "2 \<le> start" "start < 2 ^ 63"
  shows "\<exists>lp'. scan_small_primes start len sp p lp = Some lp' \<and>
               represents lp' len (\<lambda>v. survives U (start + v))"
  using assms(2-4)
proof (induction "nat (U - p)" arbitrary: p lp rule: less_induct)
  case less
  have len: "sieve_length sp = U" using assms(1) by (simp add: represents_def)
  show ?case
  proof (cases "p < U")
    case False
    then have "p = U" using less.prems by simp
    then show ?thesis using less.prems(1) len by simp
  next
    case True
    have p0: "0 \<le> p" using less.prems(2) by simp
    have pp: "prime_p sp p = Some (is_prime p)"
      using assms(1) p0 True by (rule represents_prime_p)
    have m: "nat (U - (p + 1)) < nat (U - p)" using True by simp
    have b: "2 \<le> p + 1" "p + 1 \<le> U" using less.prems(2) True by auto
    show ?thesis
    proof (cases "is_prime p")
      case False
      have "represents lp len (\<lambda>v. survives (p + 1) (start + v))"
        using less.prems(1) survives_Suc_composite[OF False] by (simp add: represents_def)
      from less.hyps[OF m this b] True pp False len show ?thesis by simp
    next
      case prime: True
      have p63: "p < 2 ^ 63" using True assms(5) by simp
      note ks = kp_index_start_spec[OF assms(6,7) less.prems(2) p63]
      have "1 \<le> p" using less.prems(2) by simp
      from mark_from_represents[OF less.prems(1) this ks(1)] obtain s1 where
        s1: "mark_from len p (kp_index_start start p) lp = Some s1"
            "represents s1 len (\<lambda>v. survives p (start + v) \<and>
               (\<forall>m\<ge>0. v \<noteq> kp_index_start start p + m * p))"
        by auto
      have "represents s1 len (\<lambda>v. survives (p + 1) (start + v))"
      proof (rule represents_cong[OF s1(2)])
        fix v :: int assume v: "0 \<le> v"
        show "(survives p (start + v) \<and> (\<forall>m\<ge>0. v \<noteq> kp_index_start start p + m * p)) =
              survives (p + 1) (start + v)"
          using kp_index_progression[OF assms(6,7) less.prems(2) p63 v]
            survives_Suc_prime[OF prime, of "start + v"] by simp
      qed
      from less.hyps[OF m this b] True pp prime s1(1) len show ?thesis by simp
    qed
  qed
qed

lemma count_marked_prime_represents:
  assumes "represents lp len P" "0 \<le> i"
  shows "count_marked_prime len lp i n = Some (n + int (card {v. i \<le> v \<and> v < len \<and> P v}))"
  using assms(2)
proof (induction "nat (len - i)" arbitrary: i n rule: less_induct)
  case less
  show ?case
  proof (cases "i < len")
    case False
    then have "{v. i \<le> v \<and> v < len \<and> P v} = {}" by auto
    then have "card {v. i \<le> v \<and> v < len \<and> P v} = 0" by (simp only: card.empty)
    then show ?thesis using False by simp
  next
    case True
    define A where "A = {v. i + 1 \<le> v \<and> v < len \<and> P v}"
    have fin: "finite A"
      by (rule finite_subset[of _ "{i + 1..<len}"]) (auto simp: A_def)
    have notin: "i \<notin> A" by (simp add: A_def)
    have split: "{v. i \<le> v \<and> v < len \<and> P v} = (if P i then insert i A else A)"
    proof -
      have "i \<le> v \<longleftrightarrow> v = i \<or> i + 1 \<le> v" for v by auto
      then show ?thesis using True by (auto simp: A_def)
    qed
    have pp: "prime_p lp i = Some (P i)"
      using assms(1) less.prems True by (rule represents_prime_p)
    have m: "nat (len - (i + 1)) < nat (len - i)" using True by simp
    have "0 \<le> i + 1" using less.prems by simp
    note ih = less.hyps[OF m this, folded A_def]
    show ?thesis
      using True pp ih fin notin by (simp add: split)
  qed
qed

lemma count_primes_between_shift:
  "int (card {v. 0 \<le> v \<and> v < len \<and> is_prime (start + v)}) =
   count_primes_between start (start + len)"
proof -
  have "{v \<in> {start..<start + len}. is_prime v} =
        (\<lambda>v. start + v) ` {v. 0 \<le> v \<and> v < len \<and> is_prime (start + v)}"
  proof (rule set_eqI)
    fix w
    show "w \<in> {v \<in> {start..<start + len}. is_prime v} \<longleftrightarrow>
          w \<in> (\<lambda>v. start + v) ` {v. 0 \<le> v \<and> v < len \<and> is_prime (start + v)}"
    proof
      assume "w \<in> {v \<in> {start..<start + len}. is_prime v}"
      then have "w - start \<in> {v. 0 \<le> v \<and> v < len \<and> is_prime (start + v)}" by simp
      moreover have "w = start + (w - start)" by simp
      ultimately show "w \<in> (\<lambda>v. start + v) ` {v. 0 \<le> v \<and> v < len \<and> is_prime (start + v)}"
        by (rule rev_image_eqI)
    next
      assume "w \<in> (\<lambda>v. start + v) ` {v. 0 \<le> v \<and> v < len \<and> is_prime (start + v)}"
      then show "w \<in> {v \<in> {start..<start + len}. is_prime v}" by auto
    qed
  qed
  moreover have "inj_on (\<lambda>v. start + v) {v. 0 \<le> v \<and> v < len \<and> is_prime (start + v)}"
    by (simp add: inj_on_def)
  ultimately show ?thesis
    by (simp add: count_primes_between_def card_image)
qed

lemma upper_bound_square: "2 ^ 63 < upper_bound * upper_bound"
  by (simp add: upper_bound_eq)

lemma sieve_segment_represents:
  assumes "find_small_primes = Some sp" "2 \<le> start" "0 < len" "start + len \<le> 2 ^ 63"
  shows "\<exists>lp. sieve_segment start len sp = Some lp \<and>
              represents lp len (\<lambda>v. is_prime (start + v))"
proof -
  have sp: "represents sp upper_bound is_prime"
  proof -
    from find_small_primes_represents obtain sp' where
      "find_small_primes = Some sp'" "represents sp' upper_bound is_prime" by blast
    then show ?thesis using assms(1) by (metis option.inject)
  qed
  obtain s where s: "create_sieve len = Some s"
    using assms(3) by (simp add: create_sieve_def)
  have "represents (init_sieve s) len (\<lambda>v. True)"
    using s by (rule represents_init)
  then have r: "represents (init_sieve s) len (\<lambda>v. survives 2 (start + v))"
    by (rule represents_cong) (use assms(2) in \<open>simp add: survives_2\<close>)
  have st: "start < 2 ^ 63" using assms(3,4) by simp
  from scan_small_primes_represents[OF sp r _ _ _ assms(2) st] obtain lp where
    lp: "scan_small_primes start len sp 2 (init_sieve s) = Some lp"
        "represents lp len (\<lambda>v. survives upper_bound (start + v))"
    by (auto simp: upper_bound_eq)
  have "represents lp len (\<lambda>v. is_prime (start + v))"
  proof (rule represents_cong[OF lp(2)])
    fix v :: int assume "v < len"
    then have "start + v < upper_bound * upper_bound"
      using assms(4) upper_bound_square by simp
    then show "survives upper_bound (start + v) = is_prime (start + v)"
      by (intro survives_sqrt) (simp_all add: upper_bound_eq)
  qed
  moreover have "sieve_segment start len sp = Some lp"
    using s lp(1) by (simp add: sieve_segment_def)
  ultimately show ?thesis by blast
qed

lemma helper_correct:
  assumes "find_small_primes = Some sp" "2 \<le> start" "0 < len" "start + len \<le> 2 ^ 63"
  shows "count_primes_in_interval_helper start len sp =
         Some (count_primes_between start (start + len))"
proof -
  from sieve_segment_represents[OF assms] obtain lp where
    lp: "sieve_segment start len sp = Some lp" "represents lp len (\<lambda>v. is_prime (start + v))"
    by auto
  have "count_marked_prime len lp 0 0 =
        Some (0 + int (card {v. 0 \<le> v \<and> v < len \<and> is_prime (start + v)}))"
    using lp(2) by (rule count_marked_prime_represents) simp
  then show ?thesis
    using lp(1) by (simp add: count_primes_in_interval_helper_def count_primes_between_shift)
qed

subsection \<open>The top-level count\<close>

lemma count_primes_between_empty: "b \<le> a \<Longrightarrow> count_primes_between a b = 0"
proof -
  assume "b \<le> a"
  then have e: "{v \<in> {a..<b}. is_prime v} = {}" by auto
  show ?thesis unfolding count_primes_between_def e by simp
qed

lemma count_primes_between_below_2: "b \<le> 2 \<Longrightarrow> count_primes_between a b = 0"
proof -
  assume "b \<le> 2"
  then have e: "{v \<in> {a..<b}. is_prime v} = {}" using is_prime_ge2 by fastforce
  show ?thesis unfolding count_primes_between_def e by simp
qed

lemma count_primes_between_split:
  assumes "a \<le> m" "m \<le> b"
  shows "count_primes_between a b = count_primes_between a m + count_primes_between m b"
proof -
  have "{v \<in> {a..<b}. is_prime v} = {v \<in> {a..<m}. is_prime v} \<union> {v \<in> {m..<b}. is_prime v}"
    using assms by auto
  moreover have "{v \<in> {a..<m}. is_prime v} \<inter> {v \<in> {m..<b}. is_prime v} = {}" by auto
  moreover have "finite {v \<in> {a..<m}. is_prime v}"
    by (rule finite_subset[of _ "{a..<m}"]) auto
  moreover have "finite {v \<in> {m..<b}. is_prime v}"
    by (rule finite_subset[of _ "{m..<b}"]) auto
  ultimately show ?thesis
    by (simp add: count_primes_between_def card_Un_disjoint)
qed

lemma count_primes_between_clamp:
  assumes "a \<le> 2"
  shows "count_primes_between a b = count_primes_between 2 b"
proof -
  have "{v \<in> {a..<b}. is_prime v} = {v \<in> {2..<b}. is_prime v}"
    using assms is_prime_ge2 by fastforce
  then show ?thesis by (simp add: count_primes_between_def)
qed

lemma count_primes_between_bounds:
  assumes "a \<le> b"
  shows "0 \<le> count_primes_between a b" "count_primes_between a b \<le> b - a"
proof -
  show "0 \<le> count_primes_between a b" by (simp add: count_primes_between_def)
  have "card {v \<in> {a..<b}. is_prime v} \<le> card {a..<b}"
    by (rule card_mono) auto
  then show "count_primes_between a b \<le> b - a"
    using assms by (simp add: count_primes_between_def)
qed

lemma count_segments_correct:
  assumes "find_small_primes = Some sp"
  shows "2 \<le> start \<Longrightarrow> 0 < len \<Longrightarrow> start + len \<le> 2 ^ 63 \<Longrightarrow> 0 \<le> n \<Longrightarrow> n + len < 2 ^ 63 \<Longrightarrow>
         count_segments count_primes_in_interval_helper sp start len n =
           Some (n + count_primes_between start (start + len))"
proof (induction "nat len" arbitrary: start len n rule: less_induct)
  case less
  show ?case
  proof (cases "len > MAX_SIEVE_LENGTH")
    case False
    have b: "count_primes_between start (start + len) \<le> len"
      using count_primes_between_bounds(2)[of start "start + len"] less.prems(2) by simp
    have b0: "0 \<le> count_primes_between start (start + len)"
      using count_primes_between_bounds(1)[of start "start + len"] less.prems(2) by simp
    have "int64 (n + count_primes_between start (start + len))"
      using b b0 less.prems(4,5) by (simp add: int64_def)
    then show ?thesis
      using False helper_correct[OF assms less.prems(1,2,3)]
      by (subst count_segments.simps) (simp add: wrap64_id)
  next
    case True
    define M where "M = MAX_SIEVE_LENGTH"
    have M: "M = 2 ^ 30" by (simp add: M_def MAX_SIEVE_LENGTH_def)
    define c where "c = count_primes_between start (start + M)"
    have h: "count_primes_in_interval_helper start M sp = Some c"
      unfolding c_def using less.prems True M by (intro helper_correct[OF assms]) (auto simp: M_def)
    have cb: "0 \<le> c" "c \<le> M"
      using count_primes_between_bounds[of start "start + M"] M by (auto simp: c_def)
    have w1: "wrap64 (start + M) = start + M"
      using less.prems True M by (intro wrap64_id) (simp add: int64_def M_def)
    have w2: "wrap64 (len - M) = len - M"
      using less.prems True M by (intro wrap64_id) (simp add: int64_def M_def)
    have w3: "wrap64 (n + c) = n + c"
      using less.prems True cb M by (intro wrap64_id) (simp add: int64_def M_def)
    have "count_segments count_primes_in_interval_helper sp (start + M) (len - M) (n + c) =
          Some (n + c + count_primes_between (start + M) (start + M + (len - M)))"
      using less.prems True cb M by (intro less.hyps) (auto simp: M_def)
    moreover have "count_primes_between start (start + len) =
          c + count_primes_between (start + M) (start + len)"
      unfolding c_def using True M by (intro count_primes_between_split) (auto simp: M_def)
    ultimately show ?thesis
      using True h w1 w2 w3 by (subst count_segments.simps) (simp add: M_def)
  qed
qed

lemma count_primes_in_interval_correct:
  assumes "int64 start" "int64 len" "int64 (start + len)"
  shows "count_primes_in_interval start len = Some (count_primes_between start (start + len))"
proof -
  have w: "wrap64 (start + len) = start + len" using assms(3) by (rule wrap64_id)
  from find_small_primes_represents obtain sp where sp: "find_small_primes = Some sp" by blast
  consider "len \<le> 0" | "0 < len" "start + len \<le> 2" | "0 < len" "2 < start + len" "start < 2"
    | "0 < len" "2 < start + len" "2 \<le> start"
    by linarith
  then show ?thesis
  proof cases
    case 1
    then show ?thesis
      by (simp add: count_primes_in_interval_def count_primes_in_interval_with_def count_primes_between_empty)
  next
    case 2
    then show ?thesis
      by (simp add: count_primes_in_interval_def count_primes_in_interval_with_def w count_primes_between_below_2)
  next
    case 3
    have w1: "wrap64 (2 - start) = 2 - start"
      using 3 assms by (intro wrap64_id) (simp add: int64_def)
    have w2: "wrap64 (len - (2 - start)) = len - (2 - start)"
      using 3 assms by (intro wrap64_id) (simp add: int64_def)
    have e: "2 + (len - (2 - start)) = start + len" by simp
    have "count_primes_in_interval start len =
          (case find_small_primes of None \<Rightarrow> None
           | Some small_primes \<Rightarrow>
               count_segments count_primes_in_interval_helper small_primes 2
                 (len - (2 - start)) 0)"
      using 3 by (simp add: count_primes_in_interval_def count_primes_in_interval_with_def w w1 w2)
    also have "\<dots> = count_segments count_primes_in_interval_helper sp 2 (len - (2 - start)) 0"
      by (simp only: sp option.case)
    also have "\<dots> = Some (0 + count_primes_between 2 (2 + (len - (2 - start))))"
      using 3 assms by (intro count_segments_correct[OF sp]) (auto simp: int64_def)
    also have "\<dots> = Some (count_primes_between 2 (start + len))"
      by (simp only: e add_0)
    also have "\<dots> = Some (count_primes_between start (start + len))"
      using 3 count_primes_between_clamp[of start "start + len"] by simp
    finally show ?thesis .
  next
    case 4
    have "count_primes_in_interval start len =
          (case find_small_primes of None \<Rightarrow> None
           | Some small_primes \<Rightarrow>
               count_segments count_primes_in_interval_helper small_primes start len 0)"
      using 4 by (simp add: count_primes_in_interval_def count_primes_in_interval_with_def w)
    also have "\<dots> = count_segments count_primes_in_interval_helper sp start len 0"
      by (simp only: sp option.case)
    also have "\<dots> = Some (0 + count_primes_between start (start + len))"
      using 4 assms by (intro count_segments_correct[OF sp]) (auto simp: int64_def)
    finally show ?thesis by simp
  qed
qed

subsection \<open>The extent of the small-primes table\<close>

lemma find_small_primes_the:
  "find_small_primes = Some (the find_small_primes)"
  "represents (the find_small_primes) upper_bound is_prime"
proof -
  from find_small_primes_represents obtain sp where
    sp: "find_small_primes = Some sp" "represents sp upper_bound is_prime" by blast
  then have "the find_small_primes = sp" by (metis option.sel)
  then show "find_small_primes = Some (the find_small_primes)"
    "represents (the find_small_primes) upper_bound is_prime"
    using sp by (simp_all only:)
qed


lemma ceiling_1_42: "\<lceil>1.42 * 2 ^ 31 :: real\<rceil> = 3049426781"
  by (rule ceiling_unique) simp_all

lemma floor_1_42: "\<lfloor>1.42 * 2 ^ 31 :: real\<rfloor> = 3049426780"
  by (rule floor_unique) simp_all

lemma sqrt_2_63: "sqrt (2 ^ 63) = 2 ^ 31 * sqrt 2"
proof -
  have "(2::real) ^ 63 = (2 ^ 31)\<^sup>2 * 2" by simp
  then have "sqrt (2 ^ 63) = sqrt ((2 ^ 31)\<^sup>2 * 2)" by (simp only:)
  also have "\<dots> = 2 ^ 31 * sqrt 2" by (simp only: real_sqrt_mult real_sqrt_abs) simp
  finally show ?thesis .
qed

lemma sqrt_2_63_less: "sqrt (2 ^ 63) < 3049426780"
  by (rule real_less_lsqrt) simp_all

subsection \<open>The calls of the helper\<close>

lemma no_wrap_above_2:
  assumes "int64 start" "int64 len" "0 < len" "2 < wrap64 (start + len)"
  shows "start + len < 2 ^ 63"
proof (rule ccontr)
  assume "\<not> start + len < 2 ^ 63"
  then have "wrap64 (start + len) < 0"
    using assms(1,2) by (intro wrap64_overflow) (auto simp: int64_def)
  then show False using assms(4) by simp
qed

lemma count_segments_guarded:
  "2 \<le> start \<Longrightarrow> 0 < len \<Longrightarrow> start + len \<le> 2 ^ 63 \<Longrightarrow>
   count_segments (guarded_helper helper) sp start len n = count_segments helper sp start len n"
proof (induction "nat len" arbitrary: start len n rule: less_induct)
  case less
  have M: "MAX_SIEVE_LENGTH = 2 ^ 30" by (simp add: MAX_SIEVE_LENGTH_def)
  show ?case
  proof (cases "len > MAX_SIEVE_LENGTH")
    case False
    then have g: "guarded_helper helper start len sp = helper start len sp"
      using less.prems by (simp add: guarded_helper_def)
    have "count_segments (guarded_helper helper) sp start len n =
          (case guarded_helper helper start len sp of
             None \<Rightarrow> None | Some c \<Rightarrow> Some (wrap64 (n + c)))"
      using False by (subst count_segments.simps[of "guarded_helper helper" sp start len n]) simp
    also have "\<dots> = (case helper start len sp of
             None \<Rightarrow> None | Some c \<Rightarrow> Some (wrap64 (n + c)))"
      by (simp only: g)
    also have "\<dots> = count_segments helper sp start len n"
      using False by (subst count_segments.simps[of helper sp start len n]) simp
    finally show ?thesis .
  next
    case True
    have g: "guarded_helper helper start MAX_SIEVE_LENGTH sp = helper start MAX_SIEVE_LENGTH sp"
      using less.prems by (simp add: guarded_helper_def M)
    have w1: "wrap64 (start + MAX_SIEVE_LENGTH) = start + MAX_SIEVE_LENGTH"
      using less.prems True by (intro wrap64_id) (simp add: int64_def M)
    have w2: "wrap64 (len - MAX_SIEVE_LENGTH) = len - MAX_SIEVE_LENGTH"
      using less.prems True by (intro wrap64_id) (simp add: int64_def M)
    have ih: "count_segments (guarded_helper helper) sp (wrap64 (start + MAX_SIEVE_LENGTH))
                (wrap64 (len - MAX_SIEVE_LENGTH)) m =
              count_segments helper sp (wrap64 (start + MAX_SIEVE_LENGTH))
                (wrap64 (len - MAX_SIEVE_LENGTH)) m" for m
      unfolding w1 w2 using less.prems True by (intro less.hyps) (auto simp: M)
    have "count_segments (guarded_helper helper) sp start len n =
          (case guarded_helper helper start MAX_SIEVE_LENGTH sp of
             None \<Rightarrow> None
           | Some c \<Rightarrow>
               count_segments (guarded_helper helper) sp (wrap64 (start + MAX_SIEVE_LENGTH))
                 (wrap64 (len - MAX_SIEVE_LENGTH)) (wrap64 (n + c)))"
      using True by (subst count_segments.simps[of "guarded_helper helper" sp start len n]) simp
    also have "\<dots> = (case helper start MAX_SIEVE_LENGTH sp of
             None \<Rightarrow> None
           | Some c \<Rightarrow>
               count_segments helper sp (wrap64 (start + MAX_SIEVE_LENGTH))
                 (wrap64 (len - MAX_SIEVE_LENGTH)) (wrap64 (n + c)))"
      by (simp only: g ih)
    also have "\<dots> = count_segments helper sp start len n"
      using True by (subst count_segments.simps[of helper sp start len n]) simp
    finally show ?thesis .
  qed
qed

lemma clamped_length_positive:
  assumes "int64 start" "int64 len" "0 < len" "2 < wrap64 (start + len)" "start < 2"
  shows "wrap64 (len - wrap64 (2 - start)) = start + len - 2" "1 \<le> start + len - 2"
proof -
  have lt: "start + len < 2 ^ 63" using assms(1-4) by (rule no_wrap_above_2)
  then have "int64 (start + len)" using assms(1,3) by (simp add: int64_def)
  then have w: "wrap64 (start + len) = start + len" by (rule wrap64_id)
  have w1: "wrap64 (2 - start) = 2 - start"
    using assms w by (intro wrap64_id) (simp add: int64_def)
  have w2: "wrap64 (len - (2 - start)) = len - (2 - start)"
    using assms w by (intro wrap64_id) (simp add: int64_def)
  show "wrap64 (len - wrap64 (2 - start)) = start + len - 2" by (simp add: w1 w2)
  show "1 \<le> start + len - 2" using assms(4) w by simp
qed

lemma count_primes_in_interval_with_guarded:
  assumes "int64 start" "int64 len"
  shows "count_primes_in_interval_with (guarded_helper helper) start len =
         count_primes_in_interval_with helper start len"
proof (cases "len \<le> 0 \<or> wrap64 (start + len) \<le> 2")
  case True
  then show ?thesis by (auto simp: count_primes_in_interval_with_def)
next
  case False
  then have pos: "0 < len" and big: "2 < wrap64 (start + len)" by auto
  have lt: "start + len < 2 ^ 63" using assms pos big by (rule no_wrap_above_2)
  show ?thesis
  proof (cases "start < 2")
    case True
    note c = clamped_length_positive[OF assms pos big True]
    have "count_segments (guarded_helper helper) sp 2 (start + len - 2) 0 =
          count_segments helper sp 2 (start + len - 2) 0" for sp
      using c(2) lt by (intro count_segments_guarded) auto
    then show ?thesis
      using True False
      by (simp add: count_primes_in_interval_with_def c(1) cong: option.case_cong)
  next
    case ge: False
    have "count_segments (guarded_helper helper) sp start len 0 =
          count_segments helper sp start len 0" for sp
      using ge pos lt by (intro count_segments_guarded) auto
    then show ?thesis
      using ge False
      by (simp add: count_primes_in_interval_with_def cong: option.case_cong)
  qed
qed

subsection \<open>Accesses within the sieves\<close>

lemma kp_index_start_nonneg:
  assumes "0 \<le> start" "1 \<le> p"
  shows "0 \<le> kp_index_start start p"
proof -
  have smod: "start smod p = start mod p"
    using assms by (cases "start = 0") (simp_all add: smod_int_alt_def)
  define r where "r = start mod p"
  have r: "0 \<le> r" "r < p" using assms(2) by (simp_all add: r_def)
  have "kp_index_start start p =
        (let kp_index = r; kp_index = (if 0 \<noteq> kp_index then p - kp_index else kp_index)
         in if wrap64 (start + kp_index) = p then kp_index + p else kp_index)"
    by (simp only: kp_index_start_def smod r_def)
  then show ?thesis using r by (auto simp: Let_def)
qed

lemma scan_small_primes_in_bounds:
  assumes "0 \<le> start"
  shows "represents lp len P \<Longrightarrow> 2 \<le> p \<Longrightarrow>
         \<exists>lp' P'. scan_small_primes start len sp p lp = Some lp' \<and> represents lp' len P'"
proof (induction "nat (sieve_length sp - p)" arbitrary: p lp P rule: less_induct)
  case less
  show ?case
  proof (cases "p < sieve_length sp")
    case False
    then show ?thesis using less.prems(1) by auto
  next
    case True
    have m: "nat (sieve_length sp - (p + 1)) < nat (sieve_length sp - p)" using True by simp
    have p2: "2 \<le> p + 1" using less.prems(2) by simp
    have pp: "prime_p sp p = Some (sieve_cells sp ! nat p)"
      using True less.prems(2) by (simp add: prime_p_def)
    show ?thesis
    proof (cases "sieve_cells sp ! nat p")
      case False
      from less.hyps[OF m less.prems(1) p2] True pp False show ?thesis by simp
    next
      case marked: True
      have "1 \<le> p" using less.prems(2) by simp
      from mark_from_represents[OF less.prems(1) this kp_index_start_nonneg[OF assms this]]
      obtain s1 where
        s1: "mark_from len p (kp_index_start start p) lp = Some s1"
            "represents s1 len (\<lambda>v. P v \<and> (\<forall>m\<ge>0. v \<noteq> kp_index_start start p + m * p))"
        by auto
      from less.hyps[OF m s1(2) p2] True pp marked s1(1) show ?thesis by simp
    qed
  qed
qed

lemma helper_in_bounds:
  assumes "0 \<le> start" "0 < len"
  shows "\<exists>num_primes. count_primes_in_interval_helper start len sp = Some num_primes"
proof -
  obtain s where s: "create_sieve len = Some s"
    using assms(2) by (simp add: create_sieve_def)
  have "represents (init_sieve s) len (\<lambda>v. True)" using s by (rule represents_init)
  from scan_small_primes_in_bounds[OF assms(1) this, of 2 sp] obtain lp P where
    lp: "scan_small_primes start len sp 2 (init_sieve s) = Some lp" "represents lp len P"
    by auto
  have "count_marked_prime len lp 0 0 = Some (0 + int (card {v. 0 \<le> v \<and> v < len \<and> P v}))"
    using lp(2) by (rule count_marked_prime_represents) simp
  then show ?thesis
    using s lp(1) by (simp add: count_primes_in_interval_helper_def sieve_segment_def)
qed

subsection \<open>The naive sieve\<close>

lemma fold_clear_length: "length (fold (\<lambda>m S. S[m := False]) ms S) = length S"
  by (induction ms arbitrary: S) simp_all

lemma fold_clear_nth:
  "v < length S \<Longrightarrow> fold (\<lambda>m S. S[m := False]) ms S ! v = (S ! v \<and> v \<notin> set ms)"
proof (induction ms arbitrary: S)
  case Nil
  then show ?case by simp
next
  case (Cons m ms)
  have "v < length (S[m := False])" using Cons.prems by simp
  from Cons.IH[OF this] Cons.prems show ?case
    by (cases "v = m") (auto simp: nth_list_update)
qed

lemma naive_cross_out_length: "length (naive_cross_out n i S) = length S"
  by (simp add: naive_cross_out_def fold_clear_length)

lemma naive_cross_out_nth:
  assumes "v < n" "length S = n" "1 \<le> i"
  shows "naive_cross_out n i S ! v = (S ! v \<and> (\<forall>k\<ge>2. int v \<noteq> int i * k))"
proof -
  have "(v \<in> set (filter (\<lambda>m. m < n) (map (\<lambda>k. k * i) [2..<n]))) = (\<exists>k\<ge>2. int v = int i * k)"
  proof
    assume "v \<in> set (filter (\<lambda>m. m < n) (map (\<lambda>k. k * i) [2..<n]))"
    then obtain k where k: "2 \<le> k" "v = k * i" by auto
    have "int v = int i * int k" using k(2) by (simp add: mult.commute)
    moreover have "2 \<le> int k" using k(1) by simp
    ultimately show "\<exists>k\<ge>2. int v = int i * k" by blast
  next
    assume "\<exists>k\<ge>2. int v = int i * k"
    then obtain k :: int where k: "2 \<le> k" "int v = int i * k" by blast
    have "int v = int (i * nat k)" using k by simp
    then have v: "v = nat k * i" by (simp only: of_nat_eq_iff mult.commute)
    have "nat k \<le> nat k * i" using assms(3) by (cases i) simp_all
    then have "nat k \<le> v" using v by simp
    then have "nat k < n" using assms(1) by (rule le_less_trans)
    moreover have "2 \<le> nat k" using k(1) by simp
    ultimately have "nat k \<in> set [2..<n]" by simp
    then have "nat k * i \<in> (\<lambda>k. k * i) ` set [2..<n]" by (rule imageI)
    then have "nat k * i \<in> set (map (\<lambda>k. k * i) [2..<n])" by (simp only: set_map)
    then show "v \<in> set (filter (\<lambda>m. m < n) (map (\<lambda>k. k * i) [2..<n]))"
      using v assms(1) by simp
  qed
  then show ?thesis
    using assms(1,2) by (simp only: naive_cross_out_def fold_clear_nth) blast
qed

lemma naive_scan_prefix:
  fixes n :: nat
  defines "f \<equiv> \<lambda>i S. if S ! i then naive_cross_out n i S else S"
    and "S0 \<equiv> (replicate n True)[0 := False, 1 := False]"
  assumes "2 \<le> m" "m \<le> n"
  shows "length (fold f [2..<m] S0) = n \<and>
         (\<forall>v<n. fold f [2..<m] S0 ! v = survives (int m) (int v))"
  using assms(3,4)
proof (induction m rule: dec_induct)
  case base
  have "S0 ! v = (2 \<le> v)" if "v < n" for v
    using that unfolding S0_def
    by (cases "v = 0"; cases "v = 1") (simp_all add: nth_list_update)
  moreover have "length S0 = n" by (simp add: S0_def)
  ultimately show ?case by (simp add: survives_2)
next
  case (step m)
  define T where "T = fold f [2..<m] S0"
  have T: "length T = n" "\<And>v. v < n \<Longrightarrow> T ! v = survives (int m) (int v)"
    using step unfolding T_def by auto
  have mn: "m < n" using step.prems by simp
  have Tm: "T ! m = is_prime (int m)"
    using T(2)[OF mn] survives_is_prime[of "int m" "int m"] by simp
  have upt: "[2..<Suc m] = [2..<m] @ [m]" using step.hyps(1) by simp
  have "fold f [2..<Suc m] S0 = f m T"
    by (simp only: upt fold_append T_def) simp
  then have unfold: "fold f [2..<Suc m] S0 = (if T ! m then naive_cross_out n m T else T)"
    by (simp only: f_def)
  have i1: "int (Suc m) = int m + 1" by simp
  have "length (if T ! m then naive_cross_out n m T else T) = n \<and>
        (\<forall>v<n. (if T ! m then naive_cross_out n m T else T) ! v =
               survives (int m + 1) (int v))"
  proof (cases "is_prime (int m)")
    case False
    then show ?thesis
      using T Tm survives_Suc_composite[OF False] by simp
  next
    case True
    have m1: "1 \<le> m" using step.hyps(1) by simp
    have "naive_cross_out n m T ! v = survives (int m + 1) (int v)" if "v < n" for v
      using naive_cross_out_nth[OF that T(1) m1] T(2)[OF that]
        survives_Suc_prime[OF True, of "int v"]
      by simp
    then show ?thesis
      using True Tm T(1) by (simp add: naive_cross_out_length)
  qed
  then show ?case unfolding unfold i1 .
qed

lemma naive_sieve_nth:
  assumes "v < n"
  shows "naive_sieve n ! v = is_prime (int v)"
proof (cases "2 \<le> n")
  case True
  from naive_scan_prefix[of n n] True assms
  have "naive_sieve n ! v = survives (int n) (int v)"
    by (simp add: naive_sieve_def)
  then show ?thesis using assms survives_is_prime[of "int v" "int n"] by simp
next
  case False
  then have n: "n = 1" "v = 0" using assms by auto
  have "\<not> is_prime 0" by (simp add: is_prime_def)
  then show ?thesis by (simp add: naive_sieve_def n)
qed

lemma naive_count_eq: "naive_count start len = count_primes_between start (start + len)"
proof -
  have "(0 \<le> v \<and> naive_sieve (nat (start + len)) ! nat v) = is_prime v"
    if "v \<in> {start..<start + len}" for v
  proof (cases "0 \<le> v")
    case True
    then have "nat v < nat (start + len)" using that by simp
    then show ?thesis using True by (simp add: naive_sieve_nth)
  next
    case False
    then show ?thesis using is_prime_ge2[of v] by auto
  qed
  then have "{v \<in> {start..<start + len}. 0 \<le> v \<and> naive_sieve (nat (start + len)) ! nat v} =
             {v \<in> {start..<start + len}. is_prime v}"
    by blast
  then show ?thesis by (simp add: naive_count_def count_primes_between_def)
qed

section \<open>The claims\<close>

text \<open>
  Claim C1. For 64-bit \<open>start\<close> and \<open>len\<close> whose sum stays in the 64-bit range,
  \<open>count_primes_in_interval\<close> returns the exact number of primes in the half-open interval
  from \<open>start\<close> to \<open>start + len\<close>, where nothing below 2 is prime; the five scenarios of
  the spec are instances.
\<close>

theorem count_primes_in_interval_exact:
  "(\<forall>start len. int64 start \<and> int64 len \<and> int64 (start + len) \<longrightarrow>
      count_primes_in_interval start len =
        Some (int (card {v \<in> {start..<start + len}. is_prime v}))) \<and>
   (\<forall>v. v < 2 \<longrightarrow> \<not> is_prime v) \<and>
   count_primes_in_interval 0 10 = Some 4 \<and>
   count_primes_in_interval 10 10 = Some 4 \<and>
   count_primes_in_interval 0 2 = Some 0 \<and>
   count_primes_in_interval (- 5) 7 = Some 0 \<and>
   count_primes_in_interval 2 1 = Some 1"
proof (intro conjI allI impI)
  fix start len :: int
  assume "int64 start \<and> int64 len \<and> int64 (start + len)"
  then show "count_primes_in_interval start len =
             Some (int (card {v \<in> {start..<start + len}. is_prime v}))"
    using count_primes_in_interval_correct[of start len]
    by (simp add: count_primes_between_def)
next
  fix v :: int assume "v < 2"
  then show "\<not> is_prime v" using is_prime_ge2[of v] by auto
next
  have "count_primes_between 0 (0 + 10) = 4"
    unfolding count_primes_between_def by code_simp
  then show "count_primes_in_interval 0 10 = Some 4"
    using count_primes_in_interval_correct[of 0 10] by (simp add: int64_def)
next
  have "count_primes_between 10 (10 + 10) = 4"
    unfolding count_primes_between_def by code_simp
  then show "count_primes_in_interval 10 10 = Some 4"
    using count_primes_in_interval_correct[of 10 10] by (simp add: int64_def)
next
  have "count_primes_between 0 (0 + 2) = 0"
    unfolding count_primes_between_def by code_simp
  then show "count_primes_in_interval 0 2 = Some 0"
    using count_primes_in_interval_correct[of 0 2] by (simp add: int64_def)
next
  have "count_primes_between (- 5) (- 5 + 7) = 0"
    unfolding count_primes_between_def by code_simp
  then show "count_primes_in_interval (- 5) 7 = Some 0"
    using count_primes_in_interval_correct[of "- 5" 7] by (simp add: int64_def)
next
  have "count_primes_between 2 (2 + 1) = 1"
    unfolding count_primes_between_def by code_simp
  then show "count_primes_in_interval 2 1 = Some 1"
    using count_primes_in_interval_correct[of 2 1] by (simp add: int64_def)
qed

theorem count_primes_in_interval_exact_witness:
  "int64 100 \<and> int64 30 \<and> int64 (100 + 30) \<and> count_primes_in_interval 100 30 = Some 6"
proof -
  have r: "int64 100 \<and> int64 30 \<and> int64 (100 + 30)" by (simp add: int64_def)
  have c: "int (card {v \<in> {100..<100 + 30}. is_prime v}) = (6::int)" by code_simp
  from count_primes_in_interval_exact have
    "\<forall>start len. int64 start \<and> int64 len \<and> int64 (start + len) \<longrightarrow>
      count_primes_in_interval start len =
        Some (int (card {v \<in> {start..<start + len}. is_prime v}))"
    by (rule conjunct1)
  then have "count_primes_in_interval 100 30 =
        Some (int (card {v \<in> {100..<100 + 30}. is_prime v}))"
    using r by blast
  then show ?thesis using r c by (simp only:) 
qed

text \<open>
  Claim C2, as amended. \<open>find_small_primes\<close> returns a sieve over the integers from 0 up to
  \<open>U = 3049426780\<close>, the product \<open>1.42 * 2 ^ 31\<close> truncated (not rounded up), and for
  every index below \<open>U\<close> the cell reads true exactly when the index is prime.
\<close>

theorem find_small_primes_sieve:
  "\<exists>sieve. find_small_primes = Some sieve \<and>
     sieve_length sieve = 3049426780 \<and>
     sieve_length sieve = \<lfloor>1.42 * 2 ^ 31 :: real\<rfloor> \<and>
     (\<forall>i. 0 \<le> i \<and> i < 3049426780 \<longrightarrow> prime_p sieve i = Some (is_prime i)) \<and>
     prime_p sieve 0 = Some False \<and> prime_p sieve 1 = Some False"
proof -
  from find_small_primes_represents obtain sp where
    sp: "find_small_primes = Some sp" "represents sp upper_bound is_prime" by blast
  have len: "sieve_length sp = 3049426780"
    using sp(2) by (simp add: represents_def upper_bound_eq)
  have cells: "prime_p sp i = Some (is_prime i)" if "0 \<le> i \<and> i < 3049426780" for i
    using represents_prime_p[OF sp(2)] that by (simp add: upper_bound_eq)
  have np: "\<not> is_prime 0" "\<not> is_prime 1" using is_prime_ge2 by fastforce+
  have "prime_p sp 0 = Some False" "prime_p sp 1 = Some False"
    using cells[of 0] cells[of 1] np by simp_all
  then show ?thesis using sp(1) len cells floor_1_42 by auto
qed

theorem find_small_primes_sieve_witness:
  "(0::int) \<le> 7 \<and> (7::int) < 3049426780 \<and>
   (\<exists>sieve. find_small_primes = Some sieve \<and> prime_p sieve 7 = Some True \<and>
      prime_p sieve 9 = Some False)"
proof -
  have p: "is_prime 7" "\<not> is_prime 9" by code_simp+
  from find_small_primes_sieve obtain sieve where
    s: "find_small_primes = Some sieve"
       "\<forall>i. 0 \<le> i \<and> i < 3049426780 \<longrightarrow> prime_p sieve i = Some (is_prime i)"
    by blast
  have "prime_p sieve 7 = Some (is_prime 7)" "prime_p sieve 9 = Some (is_prime 9)"
    using s(2) by simp_all
  then show ?thesis using s(1) p by (intro conjI exI[of _ sieve]) simp_all
qed

text \<open>
  The claim as stated fails: the sieve has 3049426780 cells, one fewer than the ceiling
  of \<open>1.42 * 2 ^ 31\<close>, so the index 3049426780 below that ceiling has no cell.
\<close>

theorem find_small_primes_extent_counterexample:
  "map_option sieve_length find_small_primes = Some 3049426780 \<and>
   \<lceil>1.42 * 2 ^ 31 :: real\<rceil> = 3049426781 \<and>
   prime_p (the find_small_primes) (\<lceil>1.42 * 2 ^ 31 :: real\<rceil> - 1) = None"
proof -
  note sp = find_small_primes_the
  have len: "sieve_length (the find_small_primes) = 3049426780"
    using sp(2) by (simp add: represents_def upper_bound_eq)
  then have "prime_p (the find_small_primes) 3049426780 = None" by (simp add: prime_p_def)
  moreover have "map_option sieve_length find_small_primes = Some 3049426780"
    by (subst sp(1)) (simp add: len)
  ultimately show ?thesis by (simp add: ceiling_1_42)
qed



text \<open>
  Claim C4, as amended. The extent of the small-primes table is \<open>1.42 * 2 ^ 31\<close>
  truncated, 3049426780, one less than the ceiling. It is greater than
  \<open>2 ^ 31 * sqrt 2\<close>, the square root of \<open>2 ^ 63\<close>. So every composite below \<open>2 ^ 63\<close>
  has a prime factor that is an index of the table: each prime factor whose square does
  not exceed the composite is one.
\<close>

theorem upper_bound_sufficient:
  "upper_bound = \<lfloor>1.42 * 2 ^ 31 :: real\<rfloor> \<and>
   upper_bound = 3049426780 \<and>
   2 ^ 31 * sqrt 2 < real_of_int upper_bound \<and>
   sqrt (2 ^ 63) < real_of_int upper_bound \<and>
   (\<forall>n p. n < 2 ^ 63 \<and> is_prime p \<and> p dvd n \<and> p * p \<le> n \<longrightarrow> 0 \<le> p \<and> p < upper_bound) \<and>
   (\<forall>n. 2 \<le> n \<and> n < 2 ^ 63 \<and> \<not> is_prime n \<longrightarrow>
      (\<exists>p. is_prime p \<and> p dvd n \<and> p * p \<le> n \<and> 0 \<le> p \<and> p < upper_bound))"
proof -
  have small: "0 \<le> p \<and> p < upper_bound"
    if a: "n < 2 ^ 63 \<and> is_prime p \<and> p dvd n \<and> p * p \<le> n" for n p :: int
  proof -
    have p0: "0 \<le> p" using a is_prime_ge2[of p] by simp
    have "p < upper_bound"
    proof (rule ccontr)
      assume "\<not> p < upper_bound"
      then have "upper_bound * upper_bound \<le> p * p"
        by (intro mult_mono) (simp_all add: upper_bound_eq)
      then show False using a upper_bound_square by simp
    qed
    then show ?thesis using p0 by simp
  qed
  have ex: "\<exists>p. is_prime p \<and> p dvd n \<and> p * p \<le> n \<and> 0 \<le> p \<and> p < upper_bound"
    if a: "2 \<le> n \<and> n < 2 ^ 63 \<and> \<not> is_prime n" for n
  proof -
    from a least_factor[of n] obtain p where
      p: "is_prime p" "p dvd n" "p = n \<or> p * p \<le> n" by auto
    then have "p * p \<le> n" using a by auto
    then show ?thesis using p(1,2) small[of n p] a by auto
  qed
  have "2 ^ 31 * sqrt 2 < real_of_int upper_bound" "sqrt (2 ^ 63) < real_of_int upper_bound"
    using sqrt_2_63_less sqrt_2_63 by (simp_all add: upper_bound_eq)
  then show ?thesis using small ex floor_1_42 upper_bound_eq by (simp only:) blast
qed

theorem upper_bound_sufficient_witness:
  "(15::int) < 2 ^ 63 \<and> is_prime 3 \<and> (3::int) dvd 15 \<and> (3::int) * 3 \<le> 15 \<and> 3 < upper_bound \<and>
   (2::int) \<le> 15 \<and> \<not> is_prime 15 \<and>
   (\<exists>p. is_prime p \<and> p dvd 15 \<and> p * p \<le> 15 \<and> 0 \<le> p \<and> p < upper_bound)"
proof -
  have h: "(15::int) < 2 ^ 63 \<and> is_prime 3 \<and> (3::int) dvd 15 \<and> (3::int) * 3 \<le> 15"
    "(2::int) \<le> 15 \<and> (15::int) < 2 ^ 63 \<and> \<not> is_prime 15"
    by code_simp+
  from upper_bound_sufficient have
    a: "\<forall>n p. n < 2 ^ 63 \<and> is_prime p \<and> p dvd n \<and> p * p \<le> n \<longrightarrow> 0 \<le> p \<and> p < upper_bound"
    and b: "\<forall>n. 2 \<le> n \<and> n < 2 ^ 63 \<and> \<not> is_prime n \<longrightarrow>
      (\<exists>p. is_prime p \<and> p dvd n \<and> p * p \<le> n \<and> 0 \<le> p \<and> p < upper_bound)"
    by blast+
  have "3 < upper_bound" using a h(1) by blast
  moreover have "\<exists>p. is_prime p \<and> p dvd 15 \<and> p * p \<le> 15 \<and> 0 \<le> p \<and> p < upper_bound"
    using b h(2) by blast
  ultimately show ?thesis using h by blast
qed

text \<open>
  The claim as stated fails: the extent is not the ceiling of \<open>1.42 * 2 ^ 31\<close>, which
  is 3049426781.
\<close>

theorem upper_bound_counterexample:
  "upper_bound \<noteq> \<lceil>1.42 * 2 ^ 31 :: real\<rceil> \<and> \<lceil>1.42 * 2 ^ 31 :: real\<rceil> = 3049426781 \<and>
   upper_bound = 3049426780"
  by (simp add: ceiling_1_42 upper_bound_eq)

text \<open>
  Claim C5. Segmentation does not change the result: for an interval of 64-bit integers
  that straddles a multiple of \<open>MAX_SIEVE_LENGTH\<close> (the spec's MAX\_SEGMENT\_LENGTH),
  \<open>count_primes_in_interval\<close> returns what one unsegmented pass of the naive sieve over
  the range counts; so for the start \<open>MAX_SIEVE_LENGTH - 5\<close> and the length 10.
\<close>

theorem segmentation_matches_naive_sieve:
  "(\<forall>start len k. int64 start \<and> int64 len \<and> int64 (start + len) \<and>
      start < k * MAX_SIEVE_LENGTH \<and> k * MAX_SIEVE_LENGTH < start + len \<longrightarrow>
      count_primes_in_interval start len = Some (naive_count start len)) \<and>
   count_primes_in_interval (MAX_SIEVE_LENGTH - 5) 10 =
     Some (naive_count (MAX_SIEVE_LENGTH - 5) 10)"
proof (intro conjI allI impI)
  fix start len k :: int
  assume "int64 start \<and> int64 len \<and> int64 (start + len) \<and>
      start < k * MAX_SIEVE_LENGTH \<and> k * MAX_SIEVE_LENGTH < start + len"
  then show "count_primes_in_interval start len = Some (naive_count start len)"
    using count_primes_in_interval_correct[of start len] by (simp add: naive_count_eq)
next
  have "int64 (MAX_SIEVE_LENGTH - 5)" "int64 10" "int64 (MAX_SIEVE_LENGTH - 5 + 10)"
    by (simp_all add: int64_def MAX_SIEVE_LENGTH_def)
  then show "count_primes_in_interval (MAX_SIEVE_LENGTH - 5) 10 =
     Some (naive_count (MAX_SIEVE_LENGTH - 5) 10)"
    using count_primes_in_interval_correct[of "MAX_SIEVE_LENGTH - 5" 10]
    by (simp add: naive_count_eq)
qed

theorem segmentation_matches_naive_sieve_witness:
  "int64 (2 ^ 30 - 5) \<and> int64 10 \<and> int64 (2 ^ 30 - 5 + 10) \<and>
   (2 ^ 30 - 5 :: int) < 1 * MAX_SIEVE_LENGTH \<and> 1 * MAX_SIEVE_LENGTH < (2 ^ 30 - 5 + 10 :: int) \<and>
   count_primes_in_interval (2 ^ 30 - 5) 10 = Some (naive_count (2 ^ 30 - 5) 10)"
proof -
  have h: "int64 (2 ^ 30 - 5) \<and> int64 10 \<and> int64 (2 ^ 30 - 5 + 10) \<and>
      (2 ^ 30 - 5 :: int) < 1 * MAX_SIEVE_LENGTH \<and> 1 * MAX_SIEVE_LENGTH < (2 ^ 30 - 5 + 10 :: int)"
    by (simp add: int64_def MAX_SIEVE_LENGTH_def)
  from segmentation_matches_naive_sieve have
    "\<forall>start len k. int64 start \<and> int64 len \<and> int64 (start + len) \<and>
      start < k * MAX_SIEVE_LENGTH \<and> k * MAX_SIEVE_LENGTH < start + len \<longrightarrow>
      count_primes_in_interval start len = Some (naive_count start len)"
    by (rule conjunct1)
  then have "count_primes_in_interval (2 ^ 30 - 5) 10 = Some (naive_count (2 ^ 30 - 5) 10)"
    using h by blast
  then show ?thesis using h by blast
qed

text \<open>
  Claim C6. Additivity: splitting a non-empty interval at an inner point \<open>m\<close> splits the
  count, all quantities being 64-bit.
\<close>

theorem count_primes_in_interval_additive:
  assumes "int64 start" "int64 len" "int64 (start + len)"
    and "0 < len" "start < m" "m < start + len"
  shows "\<exists>a b. count_primes_in_interval start (m - start) = Some a \<and>
               count_primes_in_interval m (start + len - m) = Some b \<and>
               count_primes_in_interval start len = Some (a + b)"
proof -
  have m64: "int64 m" "int64 (m - start)" "int64 (start + len - m)"
    using assms by (auto simp: int64_def)
  have 1: "count_primes_in_interval start (m - start) = Some (count_primes_between start m)"
    using count_primes_in_interval_correct[of start "m - start"] assms(1) m64 by simp
  have 2: "count_primes_in_interval m (start + len - m) =
           Some (count_primes_between m (start + len))"
    using count_primes_in_interval_correct[of m "start + len - m"] assms(3) m64 by simp
  have 3: "count_primes_in_interval start len = Some (count_primes_between start (start + len))"
    using assms(1-3) by (rule count_primes_in_interval_correct)
  have "count_primes_between start (start + len) =
        count_primes_between start m + count_primes_between m (start + len)"
    using assms(5,6) by (intro count_primes_between_split) auto
  then show ?thesis using 1 2 3 by simp
qed

theorem count_primes_in_interval_additive_witness:
  "int64 0 \<and> int64 20 \<and> int64 (0 + 20) \<and> (0::int) < 20 \<and> (0::int) < 10 \<and> (10::int) < 0 + 20 \<and>
   (\<exists>a b. count_primes_in_interval 0 (10 - 0) = Some a \<and>
          count_primes_in_interval 10 (0 + 20 - 10) = Some b \<and>
          count_primes_in_interval 0 20 = Some (a + b))"
proof -
  have h: "int64 0" "int64 20" "int64 (0 + 20)" "(0::int) < 20" "(0::int) < 10" "(10::int) < 0 + 20"
    by (simp_all add: int64_def)
  from count_primes_in_interval_additive[OF h] h show ?thesis by blast
qed

text \<open>
  Claim C7. Clamping: for \<open>start < 2\<close> with \<open>start + len > 2\<close> in the 64-bit range the
  count equals the count from 2 with the length shrunk by \<open>2 - start\<close>, the shrink being
  computed in 64-bit arithmetic (where it does not wrap).
\<close>

theorem count_primes_in_interval_clamp:
  assumes "int64 start" "int64 len" "int64 (start + len)" "start < 2" "2 < start + len"
  shows "count_primes_in_interval start len =
           count_primes_in_interval 2 (wrap64 (len - wrap64 (2 - start))) \<and>
         wrap64 (len - wrap64 (2 - start)) = len - (2 - start) \<and>
         count_primes_in_interval start len =
           Some (int (card {v \<in> {2..<start + len}. is_prime v}))"
proof -
  have w1: "wrap64 (2 - start) = 2 - start"
    using assms by (intro wrap64_id) (simp add: int64_def)
  have w2: "wrap64 (len - (2 - start)) = len - (2 - start)"
    using assms by (intro wrap64_id) (simp add: int64_def)
  have i: "int64 2" "int64 (len - (2 - start))" "int64 (2 + (len - (2 - start)))"
    using assms by (auto simp: int64_def)
  have e: "2 + (len - (2 - start)) = start + len" by simp
  have "count_primes_in_interval 2 (len - (2 - start)) =
        Some (count_primes_between 2 (2 + (len - (2 - start))))"
    using i by (rule count_primes_in_interval_correct)
  then have a: "count_primes_in_interval 2 (len - (2 - start)) =
        Some (count_primes_between 2 (start + len))"
    by (simp only: e)
  have b: "count_primes_in_interval start len = Some (count_primes_between start (start + len))"
    using assms(1-3) by (rule count_primes_in_interval_correct)
  have c: "count_primes_between start (start + len) = count_primes_between 2 (start + len)"
    using assms(4) by (intro count_primes_between_clamp) simp
  show ?thesis
    using a b c by (simp add: w1 w2 count_primes_between_def)
qed

theorem count_primes_in_interval_clamp_witness:
  "int64 (- 3) \<and> int64 10 \<and> int64 (- 3 + 10) \<and> (- 3::int) < 2 \<and> (2::int) < - 3 + 10 \<and>
   count_primes_in_interval (- 3) 10 = count_primes_in_interval 2 5 \<and>
   count_primes_in_interval (- 3) 10 = Some 3"
proof -
  have h: "int64 (- 3)" "int64 10" "int64 (- 3 + 10)" "(- 3::int) < 2" "(2::int) < - 3 + 10"
    by (simp_all add: int64_def)
  have c: "int (card {v \<in> {2..<(- 3) + 10}. is_prime v}) = (3::int)" by code_simp
  have w: "wrap64 (10 - wrap64 (2 - (- 3))) = 5" by (simp add: wrap64_def)
  from count_primes_in_interval_clamp[OF h] have
    x: "count_primes_in_interval (- 3) 10 =
        count_primes_in_interval 2 (wrap64 (10 - wrap64 (2 - (- 3))))"
    and y: "count_primes_in_interval (- 3) 10 =
        Some (int (card {v \<in> {2..<(- 3) + 10}. is_prime v}))"
    by blast+
  from x have "count_primes_in_interval (- 3) 10 = count_primes_in_interval 2 5"
    by (simp only: w)
  moreover from y have "count_primes_in_interval (- 3) 10 = Some 3"
    by (simp only: c)
  ultimately show ?thesis using h by blast
qed

text \<open>
  Claim C8. Degenerate intervals: a length that is not positive gives 0, and so does an
  interval of 64-bit integers that ends at 2 or below.
\<close>

theorem count_primes_in_interval_degenerate:
  "(\<forall>start len. len \<le> 0 \<longrightarrow> count_primes_in_interval start len = Some 0) \<and>
   (\<forall>start len. int64 start \<and> int64 len \<and> start + len \<le> 2 \<longrightarrow>
      count_primes_in_interval start len = Some 0)"
proof (intro conjI allI impI)
  fix start len :: int
  assume "len \<le> 0"
  then show "count_primes_in_interval start len = Some 0"
    by (simp add: count_primes_in_interval_def count_primes_in_interval_with_def)
next
  fix start len :: int
  assume a: "int64 start \<and> int64 len \<and> start + len \<le> 2"
  show "count_primes_in_interval start len = Some 0"
  proof (cases "len \<le> 0")
    case True
    then show ?thesis by (simp add: count_primes_in_interval_def count_primes_in_interval_with_def)
  next
    case False
    then have "int64 (start + len)" using a by (simp add: int64_def)
    then have "wrap64 (start + len) = start + len" by (rule wrap64_id)
    then show ?thesis using a by (simp add: count_primes_in_interval_def count_primes_in_interval_with_def)
  qed
qed

theorem count_primes_in_interval_degenerate_witness:
  "(- 4::int) \<le> 0 \<and> count_primes_in_interval 17 (- 4) = Some 0 \<and>
   int64 (- 5) \<and> int64 7 \<and> (- 5::int) + 7 \<le> 2 \<and> count_primes_in_interval (- 5) 7 = Some 0"
proof -
  have h: "(- 4::int) \<le> 0" "int64 (- 5) \<and> int64 7 \<and> (- 5::int) + 7 \<le> 2"
    by (simp_all add: int64_def)
  from count_primes_in_interval_degenerate have
    a: "\<forall>start len. len \<le> 0 \<longrightarrow> count_primes_in_interval start len = Some 0"
    and b: "\<forall>start len. int64 start \<and> int64 len \<and> start + len \<le> 2 \<longrightarrow>
      count_primes_in_interval start len = Some 0"
    by blast+
  have "count_primes_in_interval 17 (- 4) = Some 0" using a h(1) by blast
  moreover have "count_primes_in_interval (- 5) 7 = Some 0" using b h(2) by blast
  ultimately show ?thesis using h by blast
qed

text \<open>
  Claim C9. For 64-bit arguments, every call that \<open>count_primes_in_interval\<close> makes for
  a segment passes a start of at least 2 and a length that is positive and at most
  \<open>MAX_SIEVE_LENGTH = 2 ^ 30\<close>: whatever function is called for the segments, also one
  that returns a count for all arguments, the result is the same when every call with
  other arguments is refused; so it is for \<open>count_primes_in_interval_helper\<close>. The
  final segment's length is positive, because the length that remains after clamping
  is in 64-bit arithmetic \<open>start + len - 2\<close>, at least 1.
\<close>

theorem helper_call_arguments:
  assumes "int64 start" "int64 len"
  shows "count_primes_in_interval_with (guarded_helper helper) start len =
           count_primes_in_interval_with helper start len \<and>
         count_primes_in_interval start len =
           count_primes_in_interval_with (guarded_helper count_primes_in_interval_helper)
             start len \<and>
         (0 < len \<and> 2 < wrap64 (start + len) \<and> start < 2 \<longrightarrow>
            wrap64 (len - wrap64 (2 - start)) = start + len - 2 \<and> 1 \<le> start + len - 2) \<and>
         MAX_SIEVE_LENGTH = 2 ^ 30"
proof (intro conjI impI)
  show "count_primes_in_interval_with (guarded_helper helper) start len =
        count_primes_in_interval_with helper start len"
    using assms by (rule count_primes_in_interval_with_guarded)
  show "count_primes_in_interval start len =
        count_primes_in_interval_with (guarded_helper count_primes_in_interval_helper) start len"
    using count_primes_in_interval_with_guarded[OF assms, of count_primes_in_interval_helper]
    by (simp only: count_primes_in_interval_def)
  show "MAX_SIEVE_LENGTH = 2 ^ 30" by (simp add: MAX_SIEVE_LENGTH_def)
next
  assume a: "0 < len \<and> 2 < wrap64 (start + len) \<and> start < 2"
  then show "wrap64 (len - wrap64 (2 - start)) = start + len - 2"
    using clamped_length_positive(1)[OF assms] by blast
  from a show "1 \<le> start + len - 2"
    using clamped_length_positive(2)[OF assms] by blast
qed

theorem helper_call_arguments_witness:
  "int64 (- 3) \<and> int64 10 \<and>
   count_primes_in_interval_with (guarded_helper count_primes_in_interval_helper) (- 3) 10 =
     Some 3 \<and>
   count_primes_in_interval (- 3) 10 = Some 3 \<and>
   (0::int) < 10 \<and> 2 < wrap64 (- 3 + 10) \<and> (- 3::int) < 2 \<and>
   wrap64 (10 - wrap64 (2 - (- 3))) = 5"
proof -
  have h: "int64 (- 3)" "int64 10" by (simp_all add: int64_def)
  have c: "count_primes_between (- 3) (- 3 + 10) = 3"
    unfolding count_primes_between_def by code_simp
  have e: "count_primes_in_interval (- 3) 10 = Some 3"
    using count_primes_in_interval_correct[of "- 3" 10] c by (simp add: int64_def)
  have g: "(0::int) < 10 \<and> 2 < wrap64 (- 3 + 10) \<and> (- 3::int) < 2"
    by (simp add: wrap64_def)
  from helper_call_arguments[OF h, of count_primes_in_interval_helper] have
    a: "count_primes_in_interval (- 3) 10 =
        count_primes_in_interval_with (guarded_helper count_primes_in_interval_helper) (- 3) 10"
    and b: "0 < (10::int) \<and> 2 < wrap64 (- 3 + 10) \<and> (- 3::int) < 2 \<longrightarrow>
            wrap64 (10 - wrap64 (2 - (- 3))) = - 3 + 10 - 2 \<and> (1::int) \<le> - 3 + 10 - 2"
    by blast+
  from a e have
    "count_primes_in_interval_with (guarded_helper count_primes_in_interval_helper) (- 3) 10 =
     Some 3"
    by (simp only:)
  moreover from b g have "wrap64 (10 - wrap64 (2 - (- 3))) = 5" by simp
  ultimately show ?thesis using h e g by blast
qed

text \<open>
  Claim C10. A sieve access outside the represented range has no result, and every loop
  of the model passes the missing result on. So that \<open>find_small_primes\<close> returns a sieve
  says that each of its \<open>mark_composite\<close> and \<open>prime_p\<close> calls is within
  \<open>upper_bound\<close>; and that the helper returns a count, for a start of at least 2, a
  length that is positive and at most \<open>MAX_SIEVE_LENGTH\<close>, and any table whose array
  has as many cells as its extent, says that each of its \<open>mark_composite\<close> and
  \<open>prime_p\<close> calls on the segment sieve uses an index from 0 up to the length.
\<close>

theorem marking_in_bounds:
  "(\<exists>sieve. find_small_primes = Some sieve \<and> sieve_length sieve = upper_bound) \<and>
   (\<forall>start len small_primes.
      2 \<le> start \<and> 0 < len \<and> len \<le> MAX_SIEVE_LENGTH \<and>
      sieve_length small_primes = int (length (sieve_cells small_primes)) \<longrightarrow>
      (\<exists>num_primes. count_primes_in_interval_helper start len small_primes = Some num_primes)) \<and>
   (\<forall>sieve v. \<not> (0 \<le> v \<and> v < sieve_length sieve) \<longrightarrow>
      mark_composite sieve v = None \<and> prime_p sieve v = None)"
proof (intro conjI allI impI)
  from find_small_primes_represents
  show "\<exists>sieve. find_small_primes = Some sieve \<and> sieve_length sieve = upper_bound"
    by (auto simp: represents_def)
next
  fix start len :: int and small_primes :: sieve_t
  assume "2 \<le> start \<and> 0 < len \<and> len \<le> MAX_SIEVE_LENGTH \<and>
      sieve_length small_primes = int (length (sieve_cells small_primes))"
  then show "\<exists>num_primes. count_primes_in_interval_helper start len small_primes = Some num_primes"
    by (intro helper_in_bounds) auto
next
  fix sieve :: sieve_t and v :: int
  assume "\<not> (0 \<le> v \<and> v < sieve_length sieve)"
  then show "mark_composite sieve v = None" by (auto simp: mark_composite_def)
next
  fix sieve :: sieve_t and v :: int
  assume "\<not> (0 \<le> v \<and> v < sieve_length sieve)"
  then show "prime_p sieve v = None" by (auto simp: prime_p_def)
qed

theorem marking_in_bounds_witness:
  "(2::int) \<le> 5 \<and> (0::int) < 10 \<and> 10 \<le> MAX_SIEVE_LENGTH \<and>
   sieve_length \<lparr>sieve_length = 4, sieve_cells = [False, False, True, True]\<rparr> =
     int (length (sieve_cells \<lparr>sieve_length = 4, sieve_cells = [False, False, True, True]\<rparr>)) \<and>
   (\<exists>num_primes. count_primes_in_interval_helper 5 10
       \<lparr>sieve_length = 4, sieve_cells = [False, False, True, True]\<rparr> = Some num_primes) \<and>
   \<not> (0 \<le> (4::int) \<and> (4::int) < sieve_length \<lparr>sieve_length = 4, sieve_cells = [False, False, True, True]\<rparr>) \<and>
   mark_composite \<lparr>sieve_length = 4, sieve_cells = [False, False, True, True]\<rparr> 4 = None"
proof -
  define sp where "sp = \<lparr>sieve_length = 4, sieve_cells = [False, False, True, True]\<rparr>"
  have h: "(2::int) \<le> 5 \<and> (0::int) < 10 \<and> 10 \<le> MAX_SIEVE_LENGTH \<and>
      sieve_length sp = int (length (sieve_cells sp))"
    by (simp add: sp_def MAX_SIEVE_LENGTH_def)
  have h2: "\<not> (0 \<le> (4::int) \<and> (4::int) < sieve_length sp)" by (simp add: sp_def)
  from marking_in_bounds have
    a: "\<forall>start len small_primes.
      2 \<le> start \<and> 0 < len \<and> len \<le> MAX_SIEVE_LENGTH \<and>
      sieve_length small_primes = int (length (sieve_cells small_primes)) \<longrightarrow>
      (\<exists>num_primes. count_primes_in_interval_helper start len small_primes = Some num_primes)"
    and b: "\<forall>sieve v. \<not> (0 \<le> v \<and> v < sieve_length sieve) \<longrightarrow>
      mark_composite sieve v = None \<and> prime_p sieve v = None"
    by blast+
  have "\<exists>num_primes. count_primes_in_interval_helper 5 10 sp = Some num_primes"
    using a h by blast
  moreover have "mark_composite sp 4 = None" using b h2 by blast
  ultimately show ?thesis using h h2 unfolding sp_def by blast
qed

end
